theory Spec2Isabelle
  imports Main "HOL-Library.Word" "HOL-Library.AList" "HOL-Library.Multiset"
begin

unbundle bit_operations_syntax

section \<open>Result (nex/core/async_types.hpp)\<close>

text \<open>
  \<^verbatim>\<open>enum class ErrorCode\<close> with its eleven enumerators, in the order of the header.
\<close>

datatype ErrorCode =
    SUCCESS
  | INVALID_ARGUMENT
  | RESOURCE_EXHAUSTED
  | INTERNAL_ERROR
  | PLATFORM_ERROR
  | NETWORK_ERROR
  | TIMEOUT_ERROR
  | MODEL_NOT_FOUND
  | INFERENCE_FAILED
  | GPU_ERROR
  | MEMORY_ERROR

fun error_code_to_string :: "ErrorCode \<Rightarrow> string" where
  "error_code_to_string SUCCESS = ''Success''"
| "error_code_to_string INVALID_ARGUMENT = ''Invalid argument''"
| "error_code_to_string RESOURCE_EXHAUSTED = ''Resource exhausted''"
| "error_code_to_string INTERNAL_ERROR = ''Internal error''"
| "error_code_to_string PLATFORM_ERROR = ''Platform error''"
| "error_code_to_string NETWORK_ERROR = ''Network error''"
| "error_code_to_string TIMEOUT_ERROR = ''Timeout error''"
| "error_code_to_string MODEL_NOT_FOUND = ''Model not found''"
| "error_code_to_string INFERENCE_FAILED = ''Inference failed''"
| "error_code_to_string GPU_ERROR = ''GPU error''"
| "error_code_to_string MEMORY_ERROR = ''Memory error''"

text \<open>
  The C++ exceptions thrown by the modelled code. Every \<^verbatim>\<open>throw\<close> of the source
  is an \<open>Inl\<close> branch of a function returning \<open>cpp_exception + 'a\<close>.
\<close>

datatype cpp_exception = runtime_error string

text \<open>
  \<^verbatim>\<open>class Result<T>\<close>: the three private members
  \<^verbatim>\<open>std::optional<T> value_; ErrorCode error_code_; std::string error_message_\<close>
  (a trailing underscore is not a legal end of a name here, so the members carry
  the suffix \<open>_m\<close>).
\<close>

record 'a Result =
  value_m :: "'a option"
  error_code_m :: ErrorCode
  error_message_m :: string

definition success :: "'a \<Rightarrow> 'a Result" where
  "success v = \<lparr> value_m = Some v, error_code_m = SUCCESS, error_message_m = [] \<rparr>"

definition error :: "ErrorCode \<Rightarrow> string \<Rightarrow> 'a Result" where
  "error code message =
     (let message = (if message = [] then error_code_to_string code else message)
      in \<lparr> value_m = None, error_code_m = code, error_message_m = message \<rparr>)"

definition is_success :: "'a Result \<Rightarrow> bool" where
  "is_success r = (value_m r \<noteq> None)"

definition is_error :: "'a Result \<Rightarrow> bool" where
  "is_error r = (\<not> (value_m r \<noteq> None))"

text \<open>
  \<^verbatim>\<open>value()\<close> (both overloads have the same body): throws
  \<^verbatim>\<open>std::runtime_error\<close> unless \<^verbatim>\<open>is_success()\<close>, else dereferences the optional.
\<close>

definition value_Result :: "'a Result \<Rightarrow> cpp_exception + 'a" where
  "value_Result r =
     (if \<not> is_success r
      then Inl (runtime_error ''Attempted to access value of failed Result'')
      else (case value_m r of
              Some v \<Rightarrow> Inr v
            | None \<Rightarrow> Inl (runtime_error ''Attempted to access value of failed Result'')))"

text \<open>
  \<^verbatim>\<open>map(f)\<close>: an error is rebuilt with \<^verbatim>\<open>Result<ReturnType>::error\<close> from the stored
  code and message; otherwise \<^verbatim>\<open>f\<close> is applied to \<^verbatim>\<open>value()\<close>, whose throw (if it
  had one) would propagate.
\<close>

definition map_Result :: "('a \<Rightarrow> 'b) \<Rightarrow> 'a Result \<Rightarrow> cpp_exception + 'b Result" where
  "map_Result f r =
     (if is_error r then Inr (error (error_code_m r) (error_message_m r))
      else (case value_Result r of
              Inl e \<Rightarrow> Inl e
            | Inr v \<Rightarrow> Inr (success (f v))))"

text \<open>Sequencing of two calls, the second made only when the first did not throw.\<close>

definition then_call :: "cpp_exception + 'a \<Rightarrow> ('a \<Rightarrow> cpp_exception + 'b) \<Rightarrow> cpp_exception + 'b" where
  "then_call m k = (case m of Inl e \<Rightarrow> Inl e | Inr x \<Rightarrow> k x)"

section \<open>HighPerformanceAllocator (src/core/memory/memory_manager.cpp)\<close>

text \<open>
  \<^verbatim>\<open>size_t\<close> and \<^verbatim>\<open>void*\<close> are 64-bit words; \<^verbatim>\<open>nullptr\<close> is the address 0.
  Arithmetic on them wraps around as the unsigned arithmetic of the source does.
\<close>

type_synonym size_t = "64 word"
type_synonym addr = "64 word"

text \<open>
  \<^verbatim>\<open>struct MemoryStats\<close> (memory_manager.hpp). The \<^verbatim>\<open>double fragmentation_ratio\<close> member
  is left out: the allocator never stores it, \<^verbatim>\<open>get_stats\<close> computes it on the copy
  it returns.
\<close>

record MemoryStats =
  total_allocated :: size_t
  total_deallocated :: size_t
  current_usage :: size_t
  peak_usage :: size_t
  allocation_count :: size_t
  deallocation_count :: size_t
  gpu_total_allocated :: size_t
  gpu_current_usage :: size_t
  gpu_peak_usage :: size_t

definition MemoryStats_init :: MemoryStats where
  "MemoryStats_init =
     \<lparr> total_allocated = 0, total_deallocated = 0, current_usage = 0, peak_usage = 0,
       allocation_count = 0, deallocation_count = 0,
       gpu_total_allocated = 0, gpu_current_usage = 0, gpu_peak_usage = 0 \<rparr>"

text \<open>\<^verbatim>\<open>struct FreeBlock { void* ptr; size_t size; }\<close>.\<close>

record FreeBlock =
  fb_ptr :: addr
  fb_size :: size_t

text \<open>
  The members of \<^verbatim>\<open>HighPerformanceAllocator::Impl\<close>. The mutex is not modelled: every
  member function holds it for its whole body, so the functions below are the
  bodies run one at a time. \<^verbatim>\<open>std::unordered_map<void*, size_t> allocated_blocks_\<close> is an
  association list with distinct keys (\<open>AList.update\<close> is \<^verbatim>\<open>operator[]\<close> assignment,
  \<open>map_of\<close> is \<^verbatim>\<open>find\<close>, \<open>AList.delete\<close> is \<^verbatim>\<open>erase\<close>).
\<close>

record Impl =
  pool_size_m :: size_t
  pool_memory_m :: addr
  free_blocks_m :: "FreeBlock list"
  allocated_blocks_m :: "(addr \<times> size_t) list"
  allocated_size_m :: size_t
  stats_m :: MemoryStats

text \<open>
  \<^verbatim>\<open>initialize_pool\<close>: the result of \<^verbatim>\<open>mmap\<close> is a parameter, \<open>None\<close> for
  \<^verbatim>\<open>MAP_FAILED\<close> (which the source turns into \<^verbatim>\<open>nullptr\<close>).
\<close>

definition initialize_pool :: "addr option \<Rightarrow> Impl \<Rightarrow> Impl" where
  "initialize_pool mm a =
     (let pool_memory = (case mm of None \<Rightarrow> 0 | Some p \<Rightarrow> p);
          a1 = a\<lparr> pool_memory_m := pool_memory \<rparr>
      in if pool_memory \<noteq> 0
         then a1\<lparr> free_blocks_m :=
                    free_blocks_m a1 @ [\<lparr> fb_ptr = pool_memory, fb_size = pool_size_m a1 \<rparr>] \<rparr>
         else a1)"

definition Impl_ctor :: "size_t \<Rightarrow> addr option \<Rightarrow> Impl" where
  "Impl_ctor pool_size mm =
     initialize_pool mm
       \<lparr> pool_size_m = pool_size, pool_memory_m = 0, free_blocks_m = [],
         allocated_blocks_m = [], allocated_size_m = 0, stats_m = MemoryStats_init \<rparr>"

text \<open>\<^verbatim>\<open>(size + alignment - 1) & ~(alignment - 1)\<close>, in \<^verbatim>\<open>size_t\<close> arithmetic.\<close>

definition aligned_size_of :: "size_t \<Rightarrow> size_t \<Rightarrow> size_t" where
  "aligned_size_of sz alignment = (sz + alignment - 1) AND NOT (alignment - 1)"

text \<open>
  The scan \<^verbatim>\<open>for (it = begin; it != end; ++it) if (it->size >= aligned_size)\<close>:
  the first block that is large enough, together with the list after
  \<^verbatim>\<open>free_blocks_.erase(it)\<close>; \<open>None\<close> when the loop runs to the end.
\<close>

fun first_fit :: "size_t \<Rightarrow> FreeBlock list \<Rightarrow> (FreeBlock \<times> FreeBlock list) option" where
  "first_fit aligned_size [] = None"
| "first_fit aligned_size (b # bs) =
     (if fb_size b \<ge> aligned_size then Some (b, bs)
      else (case first_fit aligned_size bs of
              None \<Rightarrow> None
            | Some (c, rest) \<Rightarrow> Some (c, b # rest)))"

text \<open>\<^verbatim>\<open>allocate(size, alignment)\<close>: the returned pointer and the new state.\<close>

definition allocate :: "size_t \<Rightarrow> size_t \<Rightarrow> Impl \<Rightarrow> addr \<times> Impl" where
  "allocate sz alignment a =
     (let aligned_size = aligned_size_of sz alignment
      in case first_fit aligned_size (free_blocks_m a) of
           None \<Rightarrow> (0, a)
         | Some (b, erased) \<Rightarrow>
             (let ptr = fb_ptr b;
                  block_size = fb_size b;
                  free_blocks =
                    (if block_size > aligned_size + alignment
                     then erased @ [\<lparr> fb_ptr = ptr + aligned_size,
                                      fb_size = block_size - aligned_size \<rparr>]
                     else erased);
                  st = stats_m a;
                  usage = current_usage st + aligned_size
              in (ptr,
                  a\<lparr> free_blocks_m := free_blocks,
                     allocated_blocks_m := AList.update ptr aligned_size (allocated_blocks_m a),
                     allocated_size_m := allocated_size_m a + aligned_size,
                     stats_m := st\<lparr> current_usage := usage,
                                     peak_usage := max (peak_usage st) usage,
                                     allocation_count := allocation_count st + 1 \<rparr> \<rparr>)))"

text \<open>
  An access \<^verbatim>\<open>free_blocks_[i]\<close> with \<^verbatim>\<open>i >= free_blocks_.size()\<close> is undefined
  behaviour in C++; the model stops there with the fault \<open>OutOfBounds\<close>.
\<close>

datatype fault = OutOfBounds

text \<open>
  The merge loop of \<^verbatim>\<open>merge_free_blocks\<close>:
  \<^verbatim>\<open>for (size_t i = 0; i < free_blocks_.size() - 1; )\<close>, the bound computed in
  \<^verbatim>\<open>size_t\<close>. Each round reads \<^verbatim>\<open>free_blocks_[i]\<close> and \<^verbatim>\<open>free_blocks_[i + 1]\<close>.
\<close>

function merge_loop :: "nat \<Rightarrow> FreeBlock list \<Rightarrow> fault + FreeBlock list" where
  "merge_loop i xs =
     (if (of_nat i :: size_t) < of_nat (length xs) - 1
      then (if length xs \<le> i + 1 then Inl OutOfBounds
            else (let current_end = fb_ptr (xs ! i) + fb_size (xs ! i)
                  in if current_end = fb_ptr (xs ! (i + 1))
                     then merge_loop i
                            (take (i + 1)
                               (xs[i := (xs ! i)\<lparr> fb_size := fb_size (xs ! i) + fb_size (xs ! (i + 1)) \<rparr>])
                             @ drop (i + 2) xs)
                     else merge_loop (i + 1) xs))
      else Inr xs)"
  by pat_completeness auto
termination
  by (relation "measure (\<lambda>(i, xs). length xs - i)") auto

text \<open>
  \<^verbatim>\<open>std::sort(begin, end, [](a, b) { return a.ptr < b.ptr; })\<close> is not a stable
  sort: its result is some permutation of the vector in non-decreasing \<^verbatim>\<open>ptr\<close>
  order, and which one is left to the library when two blocks have the same
  \<^verbatim>\<open>ptr\<close>. The parameter \<open>order\<close> is the permutation the library picks; a value
  that is not such a permutation stands for the stable one. So every value of
  \<open>order\<close> gives a result that \<^verbatim>\<open>std::sort\<close> may produce, and every result it may
  produce is given by some \<open>order\<close>.
\<close>

definition std_sort :: "FreeBlock list \<Rightarrow> FreeBlock list \<Rightarrow> FreeBlock list" where
  "std_sort order xs =
     (if mset order = mset xs \<and> sorted (map fb_ptr order) then order
      else sort_key fb_ptr xs)"

text \<open>\<^verbatim>\<open>merge_free_blocks\<close>: \<^verbatim>\<open>std::sort\<close> by \<^verbatim>\<open>ptr\<close>, then the merge loop.\<close>

definition merge_free_blocks :: "FreeBlock list \<Rightarrow> FreeBlock list \<Rightarrow> fault + FreeBlock list" where
  "merge_free_blocks order xs = merge_loop 0 (std_sort order xs)"

text \<open>
  \<^verbatim>\<open>deallocate(ptr, size)\<close>; the \<^verbatim>\<open>size\<close> argument is never read. \<open>order\<close> is the
  outcome of the \<^verbatim>\<open>std::sort\<close> inside \<^verbatim>\<open>merge_free_blocks\<close>.
\<close>

definition deallocate :: "FreeBlock list \<Rightarrow> addr \<Rightarrow> size_t \<Rightarrow> Impl \<Rightarrow> fault + Impl" where
  "deallocate order ptr sz a =
     (if ptr = 0 then Inr a
      else (case map_of (allocated_blocks_m a) ptr of
              None \<Rightarrow> Inr a
            | Some block_size \<Rightarrow>
                (case merge_free_blocks order
                        (free_blocks_m a @ [\<lparr> fb_ptr = ptr, fb_size = block_size \<rparr>]) of
                   Inl e \<Rightarrow> Inl e
                 | Inr merged \<Rightarrow>
                     (let st = stats_m a
                      in Inr (a\<lparr> free_blocks_m := merged,
                                 allocated_blocks_m := AList.delete ptr (allocated_blocks_m a),
                                 allocated_size_m := allocated_size_m a - block_size,
                                 stats_m := st\<lparr> current_usage := current_usage st - block_size,
                                                 deallocation_count := deallocation_count st + 1 \<rparr> \<rparr>)))))"

definition compact :: "FreeBlock list \<Rightarrow> Impl \<Rightarrow> fault + Impl" where
  "compact order a =
     (case merge_free_blocks order (free_blocks_m a) of
        Inl e \<Rightarrow> Inl e
      | Inr merged \<Rightarrow> Inr (a\<lparr> free_blocks_m := merged \<rparr>))"

text \<open>\<^verbatim>\<open>reset()\<close> calls \<^verbatim>\<open>initialize_pool\<close> again, hence a second \<^verbatim>\<open>mmap\<close> result.\<close>

definition reset :: "addr option \<Rightarrow> Impl \<Rightarrow> Impl" where
  "reset mm a =
     initialize_pool mm
       (a\<lparr> allocated_blocks_m := [], free_blocks_m := [], allocated_size_m := 0,
           stats_m := MemoryStats_init \<rparr>)"

definition get_allocated_size :: "Impl \<Rightarrow> size_t" where
  "get_allocated_size a = allocated_size_m a"

declare merge_loop.simps [simp del]

text \<open>
  A block lies in the address space: it does not start at \<^verbatim>\<open>nullptr\<close> and its end
  \<open>ptr + size\<close> does not wrap around.
\<close>

definition block_ok :: "FreeBlock \<Rightarrow> bool" where
  "block_ok b = (fb_ptr b \<noteq> 0 \<and> unat (fb_ptr b) + unat (fb_size b) < 2 ^ 64)"

text \<open>
  What the operating system promises of a successful \<^verbatim>\<open>mmap(nullptr, len, ...)\<close>: the
  mapping does not start at address 0 and lies inside the address space.
\<close>

definition mmap_returns :: "size_t \<Rightarrow> addr option \<Rightarrow> bool" where
  "mmap_returns len mm =
     (case mm of None \<Rightarrow> True | Some p \<Rightarrow> p \<noteq> 0 \<and> unat p + unat len < 2 ^ 64)"

text \<open>The two totals of the tiling invariant: the bytes on the free list and the bytes
  recorded in the allocated-block map.\<close>

definition free_bytes :: "Impl \<Rightarrow> nat" where
  "free_bytes a = sum_list (map (\<lambda>b. unat (fb_size b)) (free_blocks_m a))"

definition allocated_bytes :: "Impl \<Rightarrow> nat" where
  "allocated_bytes a = sum_list (map (\<lambda>(p, s). unat s) (allocated_blocks_m a))"

text \<open>
  The allocator states that a program can observe: those built by the constructor
  and the public member functions, each call having returned.
\<close>

inductive reachable :: "Impl \<Rightarrow> bool" where
  r_ctor: "mmap_returns pool_size mm \<Longrightarrow> reachable (Impl_ctor pool_size mm)"
| r_allocate: "reachable a \<Longrightarrow> reachable (snd (allocate sz alignment a))"
| r_deallocate: "reachable a \<Longrightarrow> deallocate order ptr sz a = Inr a' \<Longrightarrow> reachable a'"
| r_compact: "reachable a \<Longrightarrow> compact order a = Inr a' \<Longrightarrow> reachable a'"
| r_reset: "reachable a \<Longrightarrow> mmap_returns (pool_size_m a) mm \<Longrightarrow> reachable (reset mm a)"

text \<open>Every free block and every recorded allocation lies in the address space.\<close>

definition blocks_in_range :: "Impl \<Rightarrow> bool" where
  "blocks_in_range a = ((\<forall>b \<in> set (free_blocks_m a). block_ok b)
            \<and> (\<forall>(p, s) \<in> set (allocated_blocks_m a). block_ok \<lparr> fb_ptr = p, fb_size = s \<rparr>))"

text \<open>A pointer is aligned to \<open>alignment\<close> when its address is a multiple of it.\<close>

definition is_aligned :: "addr \<Rightarrow> size_t \<Rightarrow> bool" where
  "is_aligned p alignment = (unat p mod unat alignment = 0)"

section \<open>ObjectPool (nex/core/memory_manager.hpp)\<close>

text \<open>
  \<^verbatim>\<open>template<typename T> class ObjectPool\<close>. The resident vector
  \<^verbatim>\<open>std::vector<std::unique_ptr<T>> pool_\<close> is a list of objects (it never holds a null
  pointer: \<^verbatim>\<open>release\<close> returns early on one), \<^verbatim>\<open>max_size_\<close> and the three counters are
  natural numbers. The mutex is not modelled.
\<close>

record 'a ObjectPool =
  pool_m :: "'a list"
  max_size_m :: nat
  allocated_count_m :: nat
  acquired_count_m :: nat
  released_count_m :: nat

text \<open>
  The constructor: \<^verbatim>\<open>initial_size\<close> rounds of
  \<^verbatim>\<open>pool_.emplace_back(std::make_unique<T>())\<close>; \<open>mk\<close> is the default-constructed
  \<^verbatim>\<open>T\<close>.
\<close>

definition ObjectPool_ctor :: "'a \<Rightarrow> nat \<Rightarrow> nat \<Rightarrow> 'a ObjectPool" where
  "ObjectPool_ctor mk initial_size max_size =
     \<lparr> pool_m = replicate initial_size mk, max_size_m = max_size,
       allocated_count_m = 0, acquired_count_m = 0, released_count_m = 0 \<rparr>"

definition acquire :: "'a \<Rightarrow> 'a ObjectPool \<Rightarrow> 'a \<times> 'a ObjectPool" where
  "acquire mk p =
     (if pool_m p \<noteq> []
      then (last (pool_m p),
            p\<lparr> pool_m := butlast (pool_m p), acquired_count_m := acquired_count_m p + 1 \<rparr>)
      else (mk, p\<lparr> allocated_count_m := allocated_count_m p + 1 \<rparr>))"

text \<open>
  \<^verbatim>\<open>release(obj)\<close>: \<open>obj = None\<close> is a null \<^verbatim>\<open>unique_ptr\<close>; \<open>rs\<close> is the \<^verbatim>\<open>reset()\<close>
  member of \<^verbatim>\<open>T\<close> when it has one. The first component of the result is the object
  that the parameter still owns when the function returns, and so destroys.
\<close>

definition release :: "('a \<Rightarrow> 'a) option \<Rightarrow> 'a option \<Rightarrow> 'a ObjectPool \<Rightarrow> 'a option \<times> 'a ObjectPool" where
  "release rs obj p =
     (case obj of
        None \<Rightarrow> (None, p)
      | Some ob \<Rightarrow>
          (if length (pool_m p) < max_size_m p
           then (None,
                 p\<lparr> pool_m := pool_m p @ [case rs of None \<Rightarrow> ob | Some r \<Rightarrow> r ob],
                    released_count_m := released_count_m p + 1 \<rparr>)
           else (Some ob, p)))"

definition capacity :: "'a ObjectPool \<Rightarrow> nat" where
  "capacity p = max_size_m p"

definition available :: "'a ObjectPool \<Rightarrow> nat" where
  "available p = length (pool_m p)"

section \<open>WorkStealingPool (nex/core/scheduler.hpp)\<close>

text \<open>\<^verbatim>\<open>enum class TaskPriority { LOW = 0, NORMAL = 1, HIGH = 2, CRITICAL = 3 }\<close>.\<close>

datatype TaskPriority = LOW | NORMAL | HIGH | CRITICAL

fun priority_value :: "TaskPriority \<Rightarrow> nat" where
  "priority_value LOW = 0"
| "priority_value NORMAL = 1"
| "priority_value HIGH = 2"
| "priority_value CRITICAL = 3"

text \<open>
  \<^verbatim>\<open>struct PriorityTask { TaskPriority priority; std::function<void()> task; }\<close>; the
  closure type is the parameter \<open>'f\<close>.
\<close>

record 'f PriorityTask =
  priority :: TaskPriority
  task :: 'f

text \<open>\<^verbatim>\<open>PriorityTask::operator<\<close>: \<^verbatim>\<open>return priority < other.priority\<close>.\<close>

definition PriorityTask_less :: "'f PriorityTask \<Rightarrow> 'f PriorityTask \<Rightarrow> bool" where
  "PriorityTask_less a other = (priority_value (priority a) < priority_value (priority other))"

text \<open>
  Modelled from the spec: \<^verbatim>\<open>std::priority_queue<PriorityTask>\<close> is the standard
  library's, not this repository's; the spec calls it a max-heap keyed on the
  priority value whose order among equal priorities is left to the heap. It is
  modelled as a binary max-heap in a vector ordered by \<open>PriorityTask_less\<close>:
  \<^verbatim>\<open>emplace\<close> appends and sifts the new element up (\<^verbatim>\<open>push_heap\<close>), \<^verbatim>\<open>top\<close> is the
  front, \<^verbatim>\<open>pop\<close> moves the last element to the front, drops the old front and
  sifts down (\<^verbatim>\<open>pop_heap\<close>, \<^verbatim>\<open>pop_back\<close>).
\<close>

definition swap_at :: "nat \<Rightarrow> nat \<Rightarrow> 'a list \<Rightarrow> 'a list" where
  "swap_at i j xs = xs[i := xs ! j, j := xs ! i]"

text \<open>
  Modelled from the spec: \<^verbatim>\<open>std::push_heap\<close>, the new element at index \<open>i\<close> moves up
  while its parent is less.
\<close>

function sift_up :: "'f PriorityTask list \<Rightarrow> nat \<Rightarrow> 'f PriorityTask list" where
  "sift_up xs i =
     (if i = 0 \<or> length xs \<le> i then xs
      else (let parent = (i - 1) div 2
            in if PriorityTask_less (xs ! parent) (xs ! i)
               then sift_up (swap_at parent i xs) parent
               else xs))"
  by pat_completeness auto
termination
  by (relation "measure (\<lambda>(xs, i). i)") auto

text \<open>
  Modelled from the spec: the sift-down of \<^verbatim>\<open>std::pop_heap\<close>, the element at index
  \<open>i\<close> moves down to its largest child while a child is greater.
\<close>

function sift_down :: "'f PriorityTask list \<Rightarrow> nat \<Rightarrow> 'f PriorityTask list" where
  "sift_down xs i =
     (let l = 2 * i + 1;
          r = 2 * i + 2;
          largest = (if l < length xs \<and> PriorityTask_less (xs ! i) (xs ! l) then l else i);
          largest = (if r < length xs \<and> PriorityTask_less (xs ! largest) (xs ! r) then r else largest)
      in if largest = i then xs else sift_down (swap_at i largest xs) largest)"
  by pat_completeness auto
termination
  by (relation "measure (\<lambda>(xs, i). length xs - i)") (auto simp: swap_at_def Let_def split: if_splits)

declare sift_up.simps [simp del] sift_down.simps [simp del]

text \<open>Modelled from the spec: \<^verbatim>\<open>priority_queue::emplace\<close>, \<^verbatim>\<open>emplace_back\<close> then \<^verbatim>\<open>push_heap\<close>.\<close>

definition pq_emplace :: "'f PriorityTask \<Rightarrow> 'f PriorityTask list \<Rightarrow> 'f PriorityTask list" where
  "pq_emplace x xs = sift_up (xs @ [x]) (length xs)"

text \<open>Modelled from the spec: \<^verbatim>\<open>priority_queue::top\<close>, the front of the vector.\<close>

definition pq_top :: "'f PriorityTask list \<Rightarrow> 'f PriorityTask option" where
  "pq_top xs = (case xs of [] \<Rightarrow> None | x # _ \<Rightarrow> Some x)"

text \<open>
  Modelled from the spec: \<^verbatim>\<open>priority_queue::pop\<close>, \<^verbatim>\<open>pop_heap\<close> then \<^verbatim>\<open>pop_back\<close>.
  On an empty queue it is undefined behaviour in C++: \<open>None\<close>.
\<close>

definition pq_pop :: "'f PriorityTask list \<Rightarrow> 'f PriorityTask list option" where
  "pq_pop xs =
     (if xs = [] then None
      else Some (sift_down (butlast (swap_at 0 (length xs - 1) xs)) 0))"

text \<open>
  The members of \<^verbatim>\<open>WorkStealingPool\<close> that submission reads or writes: the plain
  FIFO queue \<^verbatim>\<open>tasks_\<close>, the priority queue \<^verbatim>\<open>priority_tasks_\<close> and the flag
  \<^verbatim>\<open>shutdown_\<close>. The functions are the bodies run under \<^verbatim>\<open>queue_mutex_\<close>; worker
  threads and the condition variable are not modelled.
\<close>

record 'f WorkStealingPool =
  tasks_m :: "'f list"
  priority_tasks_m :: "'f PriorityTask list"
  shutdown_m :: bool

text \<open>The \<^verbatim>\<open>std::future\<close> of a packaged task, named by the task it belongs to.\<close>

datatype 'f future = Future 'f

definition submit_task :: "'f \<Rightarrow> 'f WorkStealingPool \<Rightarrow> cpp_exception + ('f future \<times> 'f WorkStealingPool)" where
  "submit_task f p =
     (if shutdown_m p then Inl (runtime_error ''ThreadPool is shutting down'')
      else Inr (Future f, p\<lparr> tasks_m := tasks_m p @ [f] \<rparr>))"

definition submit_priority_task ::
  "TaskPriority \<Rightarrow> 'f \<Rightarrow> 'f WorkStealingPool \<Rightarrow> cpp_exception + ('f future \<times> 'f WorkStealingPool)" where
  "submit_priority_task prio f p =
     (if shutdown_m p then Inl (runtime_error ''ThreadPool is shutting down'')
      else Inr (Future f,
                p\<lparr> priority_tasks_m :=
                     pq_emplace \<lparr> priority = prio, task = f \<rparr> (priority_tasks_m p) \<rparr>))"

text \<open>
  Modelled from the spec: \<^verbatim>\<open>worker_thread\<close> is declared in the header and defined
  in a file that is not part of the sources at hand. Per the spec a worker takes
  the task the priority queue hands out first: \<^verbatim>\<open>top()\<close> followed by \<^verbatim>\<open>pop()\<close>;
  \<open>None\<close> when the priority queue is empty.
\<close>

definition dequeue_priority_task :: "'f WorkStealingPool \<Rightarrow> ('f PriorityTask \<times> 'f WorkStealingPool) option" where
  "dequeue_priority_task p =
     (case pq_top (priority_tasks_m p) of
        None \<Rightarrow> None
      | Some t \<Rightarrow>
          (case pq_pop (priority_tasks_m p) of
             None \<Rightarrow> None
           | Some q \<Rightarrow> Some (t, p\<lparr> priority_tasks_m := q \<rparr>)))"

text \<open>
  The heap property of \<^verbatim>\<open>std::push_heap\<close> and \<^verbatim>\<open>std::pop_heap\<close>: no element is
  less than its child in the implicit binary tree (the parent of index \<open>i\<close> is
  \<open>(i - 1) div 2\<close>).
\<close>

definition heap_inv :: "'f PriorityTask list \<Rightarrow> bool" where
  "heap_inv xs =
     (\<forall>i. 0 < i \<and> i < length xs \<longrightarrow> \<not> PriorityTask_less (xs ! ((i - 1) div 2)) (xs ! i))"

text \<open>The key of the heap: the enumerator value of a task's priority.\<close>

definition prio_of :: "'f PriorityTask \<Rightarrow> nat" where
  "prio_of t = priority_value (priority t)"

text \<open>
  The state of the vector while an element is sifted up from index \<open>k\<close>: every
  parent-child pair is in heap order except possibly the pair above \<open>k\<close>, and the
  children of \<open>k\<close> are in order with the parent of \<open>k\<close>.
\<close>

definition up_inv :: "'f PriorityTask list \<Rightarrow> nat \<Rightarrow> bool" where
  "up_inv xs k =
     ((\<forall>i. 0 < i \<and> i < length xs \<and> i \<noteq> k \<longrightarrow> prio_of (xs ! i) \<le> prio_of (xs ! ((i - 1) div 2)))
      \<and> (\<forall>c. 0 < c \<and> c < length xs \<and> (c - 1) div 2 = k \<and> 0 < k
              \<longrightarrow> prio_of (xs ! c) \<le> prio_of (xs ! ((k - 1) div 2))))"

text \<open>
  The state of the vector while an element is sifted down from index \<open>k\<close>: every
  parent-child pair is in heap order except possibly the pairs below \<open>k\<close>, and the
  children of \<open>k\<close> are in order with the parent of \<open>k\<close>.
\<close>

definition down_inv :: "'f PriorityTask list \<Rightarrow> nat \<Rightarrow> bool" where
  "down_inv xs k =
     ((\<forall>i. 0 < i \<and> i < length xs \<and> (i - 1) div 2 \<noteq> k \<longrightarrow> prio_of (xs ! i) \<le> prio_of (xs ! ((i - 1) div 2)))
      \<and> (\<forall>c. 0 < c \<and> c < length xs \<and> (c - 1) div 2 = k \<and> 0 < k
              \<longrightarrow> prio_of (xs ! c) \<le> prio_of (xs ! ((k - 1) div 2))))"

text \<open>
  A pool after construction: both queues empty, \<^verbatim>\<open>std::atomic<bool> shutdown_{false}\<close>.
\<close>

definition WorkStealingPool_init :: "'f WorkStealingPool" where
  "WorkStealingPool_init = \<lparr> tasks_m = [], priority_tasks_m = [], shutdown_m = False \<rparr>"

text \<open>
  Modelled from the spec: \<^verbatim>\<open>shutdown()\<close> is declared in the header and defined in a
  file that is not part of the sources at hand; per the spec it "sets a shutdown
  flag" (and then wakes and joins the workers, which are not modelled).
\<close>

definition shutdown_flag :: "'f WorkStealingPool \<Rightarrow> 'f WorkStealingPool" where
  "shutdown_flag p = p\<lparr> shutdown_m := True \<rparr>"

text \<open>
  The pool states reachable from a fresh pool by submissions that returned, by
  workers taking the task the priority queue hands out, and by the shutdown flag
  being set.
\<close>

inductive pool_reachable :: "'f WorkStealingPool \<Rightarrow> bool" where
  p_init: "pool_reachable WorkStealingPool_init"
| p_submit: "pool_reachable p \<Longrightarrow> submit_task f p = Inr (fu, p') \<Longrightarrow> pool_reachable p'"
| p_submit_priority:
    "pool_reachable p \<Longrightarrow> submit_priority_task prio f p = Inr (fu, p') \<Longrightarrow> pool_reachable p'"
| p_dequeue: "pool_reachable p \<Longrightarrow> dequeue_priority_task p = Some (t, p') \<Longrightarrow> pool_reachable p'"
| p_shutdown: "pool_reachable p \<Longrightarrow> pool_reachable (shutdown_flag p)"

section \<open>Properties of Result\<close>

lemma error_code_to_string_nonempty: "error_code_to_string c \<noteq> []"
  by (cases c) simp_all

lemma error_message_nonempty: "error_message_m (error c m :: 'a Result) \<noteq> []"
  by (simp add: error_def error_code_to_string_nonempty)

lemma map_Result_success: "map_Result f (success x) = Inr (success (f x))"
  by (simp add: map_Result_def is_error_def is_success_def value_Result_def success_def)

lemma map_Result_error:
  "map_Result f (error c m :: 'a Result) = Inr (error c m :: 'b Result)"
  by (simp add: map_Result_def is_error_def error_def error_code_to_string_nonempty)

text \<open>
  Claim C7. Mapping \<open>f\<close> and then \<open>g\<close> over \<open>success x\<close> yields \<open>success (g (f x))\<close>
  and no call throws; mapping any \<open>f\<close> over \<open>error c m\<close> yields \<open>error c m\<close> at the
  new value type, with the same code and the same message. The second part holds
  for every message, the non-empty ones of the claim included (an empty message
  has already been replaced by the canonical string of the code when the error
  was built).
\<close>

theorem C7_map_laws:
  "then_call (map_Result f (success x)) (map_Result g) = Inr (success (g (f x)))
   \<and> map_Result h (error c m :: 'a Result) = Inr (error c m :: 'b Result)
   \<and> error_code_m (error c m :: 'b Result) = error_code_m (error c m :: 'a Result)
   \<and> error_message_m (error c m :: 'b Result) = error_message_m (error c m :: 'a Result)"
  by (simp add: map_Result_success map_Result_error then_call_def) (simp add: error_def)

text \<open>
  Claim C8. \<open>value\<close> returns the contained value of a success and throws exactly on
  an error result: it throws if and only if \<open>is_error\<close> holds, and otherwise returns
  the stored value. (The exception the source throws is \<^verbatim>\<open>std::runtime_error\<close>.)
\<close>

theorem C8_value_raises_iff_error:
  "((\<exists>e. value_Result (r :: 'a Result) = Inl e) \<longleftrightarrow> is_error r)
   \<and> (is_success r \<longrightarrow> (\<exists>v. value_m r = Some v \<and> value_Result r = Inr v))
   \<and> value_Result (success (x :: 'a)) = Inr x
   \<and> (\<exists>e. value_Result (error c m :: 'a Result) = Inl e)"
  by (cases "value_m r") (auto simp: value_Result_def is_error_def is_success_def success_def error_def)

theorem C8_value_witness:
  "is_success (success (42 :: int)) \<and> value_Result (success (42 :: int)) = Inr 42
   \<and> is_error (error INVALID_ARGUMENT ''Test error'' :: int Result)
   \<and> (\<exists>e. value_Result (error INVALID_ARGUMENT ''Test error'' :: int Result) = Inl e)"
  using C8_value_raises_iff_error [of "success (42 :: int)" 42 INVALID_ARGUMENT "''Test error''"]
        C8_value_raises_iff_error [of "error INVALID_ARGUMENT ''Test error'' :: int Result" 42 INVALID_ARGUMENT "''Test error''"]
  by (simp add: is_success_def is_error_def success_def error_def)

section \<open>Properties of the allocator\<close>

lemma first_fit_None_iff:
  "first_fit s xs = None \<longleftrightarrow> (\<forall>b \<in> set xs. fb_size b < s)"
  by (induction xs) (auto split: option.splits simp: not_le)

lemma first_fit_Some:
  "first_fit s xs = Some (b, r) \<Longrightarrow>
     b \<in> set xs \<and> s \<le> fb_size b \<and> set r \<subseteq> set xs
     \<and> sum_list (map (\<lambda>b. unat (fb_size b)) xs)
         = unat (fb_size b) + sum_list (map (\<lambda>b. unat (fb_size b)) r)"
  by (induction xs arbitrary: r) (auto split: option.splits if_splits)

lemma merge_loop_block_ok:
  "\<forall>b \<in> set xs. block_ok b \<Longrightarrow> merge_loop i xs = Inr ys \<Longrightarrow> \<forall>b \<in> set ys. block_ok b"
proof (induction i xs rule: merge_loop.induct)
  case (1 i xs)
  show ?case
  proof (cases "(of_nat i :: size_t) < of_nat (length xs) - 1")
    case False
    with "1.prems" show ?thesis by (simp add: merge_loop.simps [of i xs])
  next
    case bound: True
    show ?thesis
    proof (cases "length xs \<le> i + 1")
      case True
      with bound "1.prems" show ?thesis by (simp add: merge_loop.simps [of i xs])
    next
      case inb: False
      let ?m = "(xs ! i)\<lparr> fb_size := fb_size (xs ! i) + fb_size (xs ! (i + 1)) \<rparr>"
      let ?xs' = "take (i + 1) (xs[i := ?m]) @ drop (i + 2) xs"
      show ?thesis
      proof (cases "fb_ptr (xs ! i) + fb_size (xs ! i) = fb_ptr (xs ! (i + 1))")
        case False
        with bound inb "1.prems" "1.IH"(2) show ?thesis
          by (simp add: merge_loop.simps [of i xs] Let_def)
      next
        case adj: True
        from inb have i: "i < length xs" and i1: "i + 1 < length xs" by simp_all
        have oki: "block_ok (xs ! i)" and oki1: "block_ok (xs ! (i + 1))"
          using "1.prems"(1) i i1 by (auto simp: all_set_conv_all_nth)
        have nowrap: "unat (fb_ptr (xs ! i) + fb_size (xs ! i)) = unat (fb_ptr (xs ! i)) + unat (fb_size (xs ! i))"
          using oki by (simp add: block_ok_def unat_add_lem [THEN iffD1])
        have okm: "block_ok ?m"
          using oki oki1 adj nowrap
          by (auto simp: block_ok_def unat_add_lem [THEN iffD1])
        have "set ?xs' \<subseteq> insert ?m (set xs)"
        proof -
          have "set (take (i + 1) (xs[i := ?m])) \<subseteq> set (xs[i := ?m])" by (rule set_take_subset)
          moreover have "set (xs[i := ?m]) \<subseteq> insert ?m (set xs)" by (rule set_update_subset_insert)
          moreover have "set (drop (i + 2) xs) \<subseteq> set xs" by (rule set_drop_subset)
          ultimately show ?thesis by auto
        qed
        with okm "1.prems"(1) have ok': "\<forall>b \<in> set ?xs'. block_ok b" by auto
        have "merge_loop i xs = merge_loop i ?xs'"
          using bound inb adj by (simp add: merge_loop.simps [of i xs] Let_def)
        with "1.prems"(2) have "merge_loop i ?xs' = Inr ys" by simp
        from "1.IH"(1) [OF bound inb refl adj ok' this] show ?thesis .
      qed
    qed
  qed
qed

lemma std_sort_mset: "mset (std_sort order xs) = mset xs"
  by (simp add: std_sort_def)

lemma std_sort_sorted: "sorted (map fb_ptr (std_sort order xs))"
  by (simp add: std_sort_def)

lemma std_sort_any:
  "mset ys = mset xs \<Longrightarrow> sorted (map fb_ptr ys) \<Longrightarrow> std_sort ys xs = ys"
  by (simp add: std_sort_def)

lemma std_sort_set: "set (std_sort order xs) = set xs"
  using std_sort_mset [of order xs] by (rule mset_eq_setD)

lemma std_sort_length: "length (std_sort order xs) = length xs"
  using std_sort_mset [of order xs] by (rule mset_eq_length)

lemma std_sort_Nil: "std_sort order [] = []"
  using std_sort_length [of order "[]"] by simp

lemma std_sort_single: "std_sort order [b] = [b]"
proof -
  have "length (std_sort order [b]) = 1" by (simp add: std_sort_length)
  then obtain c where c: "std_sort order [b] = [c]"
    by (cases "std_sort order [b]") simp_all
  with std_sort_set [of order "[b]"] show ?thesis by simp
qed

lemma merge_free_blocks_block_ok:
  "\<forall>b \<in> set xs. block_ok b \<Longrightarrow> merge_free_blocks order xs = Inr ys \<Longrightarrow> \<forall>b \<in> set ys. block_ok b"
  unfolding merge_free_blocks_def
  by (rule merge_loop_block_ok [where xs = "std_sort order xs" and i = 0]) (simp_all add: std_sort_set)

lemma blocks_in_range_initialize_pool:
  "mmap_returns (pool_size_m a) mm \<Longrightarrow> free_blocks_m a = [] \<Longrightarrow> allocated_blocks_m a = []
     \<Longrightarrow> blocks_in_range (initialize_pool mm a)"
  by (cases mm) (auto simp: blocks_in_range_def initialize_pool_def mmap_returns_def block_ok_def Let_def)

lemma blocks_in_range_Impl_ctor: "mmap_returns pool_size mm \<Longrightarrow> blocks_in_range (Impl_ctor pool_size mm)"
  unfolding Impl_ctor_def by (rule blocks_in_range_initialize_pool) simp_all

lemma blocks_in_range_reset: "mmap_returns (pool_size_m a) mm \<Longrightarrow> blocks_in_range (reset mm a)"
  unfolding reset_def by (rule blocks_in_range_initialize_pool) simp_all

lemma block_ok_prefix:
  assumes "block_ok b" "s \<le> fb_size b"
  shows "block_ok \<lparr> fb_ptr = fb_ptr b, fb_size = s \<rparr>"
  using assms by (simp add: block_ok_def word_le_nat_alt)

lemma block_ok_suffix:
  assumes "block_ok b" "s \<le> fb_size b"
  shows "block_ok \<lparr> fb_ptr = fb_ptr b + s, fb_size = fb_size b - s \<rparr>"
proof -
  from assms have le: "unat s \<le> unat (fb_size b)" by (simp add: word_le_nat_alt)
  with assms(1) have "unat (fb_ptr b) + unat s < 2 ^ 64" by (simp add: block_ok_def)
  then have add: "unat (fb_ptr b + s) = unat (fb_ptr b) + unat s"
    by (simp add: unat_add_lem [THEN iffD1])
  have sub: "unat (fb_size b - s) = unat (fb_size b) - unat s"
    using assms(2) by (simp add: unat_sub)
  have "fb_ptr b + s \<noteq> 0"
  proof
    assume "fb_ptr b + s = 0"
    then have "unat (fb_ptr b + s) = 0" by simp
    with add have "unat (fb_ptr b) = 0" by simp
    then have "fb_ptr b = 0" by (simp add: unat_eq_0)
    with assms(1) show False by (simp add: block_ok_def)
  qed
  with add sub le assms(1) show ?thesis by (simp add: block_ok_def)
qed

lemma set_AList_update_subset: "set (AList.update k v al) \<subseteq> insert (k, v) (set al)"
  by (induction al) auto

lemma set_AList_delete_subset: "set (AList.delete k al) \<subseteq> set al"
  by (induction al) auto

lemma blocks_in_range_allocate: "blocks_in_range a \<Longrightarrow> blocks_in_range (snd (allocate sz alignment a))"
proof (cases "first_fit (aligned_size_of sz alignment) (free_blocks_m a)")
  case None
  assume "blocks_in_range a"
  with None show ?thesis by (simp add: allocate_def)
next
  case (Some br)
  assume I: "blocks_in_range a"
  obtain b r where br: "br = (b, r)" by (cases br)
  from Some br first_fit_Some [of "aligned_size_of sz alignment" "free_blocks_m a" b r]
  have b_in: "b \<in> set (free_blocks_m a)" and fits: "aligned_size_of sz alignment \<le> fb_size b"
    and sub: "set r \<subseteq> set (free_blocks_m a)" by simp_all
  from I b_in have okb: "block_ok b" by (simp add: blocks_in_range_def)
  note pre = block_ok_prefix [OF okb fits] and suf = block_ok_suffix [OF okb fits]
  have free: "\<forall>c \<in> set (free_blocks_m (snd (allocate sz alignment a))). block_ok c"
    using Some br I sub suf by (auto simp: allocate_def Let_def blocks_in_range_def)
  have alloc: "\<forall>(p, s) \<in> set (allocated_blocks_m (snd (allocate sz alignment a))).
                 block_ok \<lparr> fb_ptr = p, fb_size = s \<rparr>"
    using Some br I pre
      set_AList_update_subset [of "fb_ptr b" "aligned_size_of sz alignment" "allocated_blocks_m a"]
    by (auto simp: allocate_def Let_def blocks_in_range_def)
  from free alloc show ?thesis by (simp add: blocks_in_range_def)
qed

lemma deallocate_unknown:
  "ptr = 0 \<or> map_of (allocated_blocks_m a) ptr = None \<Longrightarrow> deallocate order ptr sz a = Inr a"
  by (cases "ptr = 0") (simp_all add: deallocate_def)

lemma blocks_in_range_deallocate:
  "blocks_in_range a \<Longrightarrow> deallocate order ptr sz a = Inr a' \<Longrightarrow> blocks_in_range a'"
proof -
  assume I: "blocks_in_range a" and D: "deallocate order ptr sz a = Inr a'"
  show ?thesis
  proof (cases "ptr = 0 \<or> map_of (allocated_blocks_m a) ptr = None")
    case True
    from deallocate_unknown [OF this, of order sz] D have "a' = a" by simp
    with I show ?thesis by simp
  next
    case False
    then obtain bs where bs: "map_of (allocated_blocks_m a) ptr = Some bs" and nz: "ptr \<noteq> 0" by auto
    from bs have mem: "(ptr, bs) \<in> set (allocated_blocks_m a)" by (rule map_of_SomeD)
    with I have okn: "block_ok \<lparr> fb_ptr = ptr, fb_size = bs \<rparr>" by (auto simp: blocks_in_range_def)
    from D bs nz obtain merged where
      m: "merge_free_blocks order (free_blocks_m a @ [\<lparr> fb_ptr = ptr, fb_size = bs \<rparr>]) = Inr merged"
      and fr: "free_blocks_m a' = merged"
      and al: "allocated_blocks_m a' = AList.delete ptr (allocated_blocks_m a)"
      by (auto simp: deallocate_def Let_def split: sum.splits)
    have "\<forall>b \<in> set (free_blocks_m a @ [\<lparr> fb_ptr = ptr, fb_size = bs \<rparr>]). block_ok b"
      using I okn by (auto simp: blocks_in_range_def)
    from merge_free_blocks_block_ok [OF this m] fr
    have free: "\<forall>b \<in> set (free_blocks_m a'). block_ok b" by simp
    have alloc: "\<forall>(p, s) \<in> set (allocated_blocks_m a'). block_ok \<lparr> fb_ptr = p, fb_size = s \<rparr>"
      using I al set_AList_delete_subset [of ptr "allocated_blocks_m a"] by (auto simp: blocks_in_range_def)
    from free alloc show ?thesis by (simp add: blocks_in_range_def)
  qed
qed

lemma blocks_in_range_compact:
  "blocks_in_range a \<Longrightarrow> compact order a = Inr a' \<Longrightarrow> blocks_in_range a'"
proof -
  assume I: "blocks_in_range a" and C: "compact order a = Inr a'"
  from C obtain merged where m: "merge_free_blocks order (free_blocks_m a) = Inr merged"
    and a': "a' = a\<lparr> free_blocks_m := merged \<rparr>"
    by (auto simp: compact_def split: sum.splits)
  from I have "\<forall>b \<in> set (free_blocks_m a). block_ok b" by (simp add: blocks_in_range_def)
  from merge_free_blocks_block_ok [OF this m] I a' show ?thesis by (simp add: blocks_in_range_def)
qed

lemma reachable_inv: "reachable a \<Longrightarrow> blocks_in_range a"
proof (induction rule: reachable.induct)
  case (r_ctor pool_size mm)
  then show ?case by (rule blocks_in_range_Impl_ctor)
next
  case (r_allocate a sz alignment)
  then show ?case by (simp add: blocks_in_range_allocate)
next
  case (r_deallocate a order ptr sz a')
  then show ?case by (blast intro: blocks_in_range_deallocate)
next
  case (r_compact a order a')
  then show ?case by (blast intro: blocks_in_range_compact)
next
  case (r_reset a mm)
  then show ?case by (simp add: blocks_in_range_reset)
qed

lemma merge_loop_in_bounds:
  "xs \<noteq> [] \<Longrightarrow> length xs < 2 ^ 64 \<Longrightarrow> i < length xs \<Longrightarrow> \<exists>ys. merge_loop i xs = Inr ys"
proof (induction i xs rule: merge_loop.induct)
  case (1 i xs)
  from "1.prems" have len: "1 \<le> length xs" by (cases xs) simp_all
  have ui: "unat (of_nat i :: size_t) = i"
    using "1.prems" by (simp add: unat_of_nat)
  have "unat (of_nat (length xs) - 1 :: size_t) = unat (of_nat (length xs) :: size_t) - unat (1 :: size_t)"
    using len "1.prems"(2) by (intro unat_sub) (simp add: word_le_nat_alt unat_of_nat)
  then have ub: "unat (of_nat (length xs) - 1 :: size_t) = length xs - 1"
    using "1.prems"(2) by (simp add: unat_of_nat)
  show ?case
  proof (cases "(of_nat i :: size_t) < of_nat (length xs) - 1")
    case False
    then show ?thesis by (simp add: merge_loop.simps [of i xs])
  next
    case bound: True
    then have lt: "i + 1 < length xs" using ui ub by (simp add: word_less_nat_alt)
    then have inb: "\<not> length xs \<le> i + 1" by simp
    let ?m = "(xs ! i)\<lparr> fb_size := fb_size (xs ! i) + fb_size (xs ! (i + 1)) \<rparr>"
    let ?xs' = "take (i + 1) (xs[i := ?m]) @ drop (i + 2) xs"
    show ?thesis
    proof (cases "fb_ptr (xs ! i) + fb_size (xs ! i) = fb_ptr (xs ! (i + 1))")
      case False
      have "\<exists>ys. merge_loop (i + 1) xs = Inr ys"
        using "1.IH"(2) [OF bound inb refl False "1.prems"(1,2) lt] .
      with bound inb False show ?thesis by (simp add: merge_loop.simps [of i xs] Let_def)
    next
      case adj: True
      have l': "length ?xs' = length xs - 1" using lt by simp
      have "\<exists>ys. merge_loop i ?xs' = Inr ys"
      proof (rule "1.IH"(1) [OF bound inb refl adj])
        show "?xs' \<noteq> []" using l' lt by (metis length_0_conv less_diff_conv not_less0)
        show "length ?xs' < 2 ^ 64" using l' "1.prems"(2) by simp
        show "i < length ?xs'" using l' lt by simp
      qed
      with bound inb adj show ?thesis by (simp add: merge_loop.simps [of i xs] Let_def)
    qed
  qed
qed

lemma merge_free_blocks_in_bounds:
  "xs \<noteq> [] \<Longrightarrow> length xs < 2 ^ 64 \<Longrightarrow> \<exists>ys. merge_free_blocks order xs = Inr ys"
proof -
  assume ne: "xs \<noteq> []" and len: "length xs < 2 ^ 64"
  from ne have "0 < length xs" by simp
  then have pos: "0 < length (std_sort order xs)" by (simp only: std_sort_length)
  then have nn: "std_sort order xs \<noteq> []" by auto
  from len have l2: "length (std_sort order xs) < 2 ^ 64" by (simp only: std_sort_length)
  from merge_loop_in_bounds [OF nn l2 pos] show ?thesis by (simp add: merge_free_blocks_def)
qed

lemma free_bytes_allocate: "free_bytes (snd (allocate sz alignment a)) \<le> free_bytes a"
proof (cases "first_fit (aligned_size_of sz alignment) (free_blocks_m a)")
  case None
  then show ?thesis by (simp add: allocate_def)
next
  case (Some br)
  obtain b r where br: "br = (b, r)" by (cases br)
  from Some br first_fit_Some [of "aligned_size_of sz alignment" "free_blocks_m a" b r]
  have fits: "aligned_size_of sz alignment \<le> fb_size b"
    and sum: "sum_list (map (\<lambda>b. unat (fb_size b)) (free_blocks_m a))
               = unat (fb_size b) + sum_list (map (\<lambda>b. unat (fb_size b)) r)" by simp_all
  have "unat (fb_size b - aligned_size_of sz alignment) \<le> unat (fb_size b)"
    using fits by (simp add: unat_sub)
  with Some br sum show ?thesis by (simp add: allocate_def Let_def free_bytes_def)
qed

lemma allocate_keeps_pool:
  "pool_size_m (snd (allocate sz alignment a)) = pool_size_m a
   \<and> pool_memory_m (snd (allocate sz alignment a)) = pool_memory_m a"
  by (simp add: allocate_def Let_def split: option.splits prod.splits)

lemma allocate_null_iff:
  assumes "blocks_in_range a"
  shows "fst (allocate sz alignment a) = 0
           \<longleftrightarrow> (\<forall>b \<in> set (free_blocks_m a). fb_size b < aligned_size_of sz alignment)"
proof (cases "first_fit (aligned_size_of sz alignment) (free_blocks_m a)")
  case None
  then show ?thesis using first_fit_None_iff [of "aligned_size_of sz alignment" "free_blocks_m a"]
    by (simp add: allocate_def)
next
  case (Some br)
  obtain b r where br: "br = (b, r)" by (cases br)
  from Some br first_fit_Some [of "aligned_size_of sz alignment" "free_blocks_m a" b r]
  have b_in: "b \<in> set (free_blocks_m a)" and fits: "aligned_size_of sz alignment \<le> fb_size b"
    by simp_all
  from assms b_in have "fb_ptr b \<noteq> 0" by (simp add: blocks_in_range_def block_ok_def)
  moreover have "fst (allocate sz alignment a) = fb_ptr b"
    using Some br by (simp add: allocate_def Let_def)
  moreover have "\<not> (\<forall>b \<in> set (free_blocks_m a). fb_size b < aligned_size_of sz alignment)"
    using b_in fits by (auto simp: not_less)
  ultimately show ?thesis by simp
qed

lemma allocate_null_unchanged:
  "\<forall>b \<in> set (free_blocks_m a). fb_size b < aligned_size_of sz alignment
     \<Longrightarrow> allocate sz alignment a = (0, a)"
  using first_fit_None_iff [of "aligned_size_of sz alignment" "free_blocks_m a"]
  by (simp add: allocate_def)

lemma exhaustion_scenario:
  assumes "mmap_returns 1024 (Some base)"
  shows "allocate 1024 8 (Impl_ctor 1024 (Some base))
           = (base, (Impl_ctor 1024 (Some base))
                \<lparr> free_blocks_m := [],
                   allocated_blocks_m := [(base, 1024)],
                   allocated_size_m := 1024,
                   stats_m := MemoryStats_init\<lparr> current_usage := 1024, peak_usage := 1024,
                                                   allocation_count := 1 \<rparr> \<rparr>)"
  using assms
  by (simp add: mmap_returns_def allocate_def Impl_ctor_def initialize_pool_def aligned_size_of_def
                Let_def MemoryStats_init_def)

lemma word_zero_less_max: "(0 :: size_t) < - 1"
  by (simp add: word_gt_0)

text \<open>
  Claim C1 does not hold of the code. When the chosen block is larger than the
  rounded request by at most \<open>alignment\<close> bytes, \<^verbatim>\<open>allocate\<close> does not split it, yet
  records only the rounded request: the tail of the block is on neither list.
  On a pool of 1024 bytes mapped at \<open>0x1000\<close>, \<^verbatim>\<open>allocate(1016, 8)\<close> leaves no free
  block and one allocated block of 1016 bytes, so free and allocated bytes add
  up to 1016, not to the pool size 1024; \<^verbatim>\<open>deallocate\<close> then puts a free block of
  1016 bytes back (whatever order the sort picks), and the last 8 bytes of the
  pool stay lost.
\<close>

theorem C1_tiling_broken_by_unsplit_block:
  "allocate 1016 8 (Impl_ctor 1024 (Some 0x1000))
       = (0x1000, (Impl_ctor 1024 (Some 0x1000))
            \<lparr> free_blocks_m := [],
               allocated_blocks_m := [(0x1000, 1016)],
               allocated_size_m := 1016,
               stats_m := MemoryStats_init\<lparr> current_usage := 1016, peak_usage := 1016,
                                               allocation_count := 1 \<rparr> \<rparr>)
   \<and> free_bytes (snd (allocate 1016 8 (Impl_ctor 1024 (Some 0x1000))))
       + allocated_bytes (snd (allocate 1016 8 (Impl_ctor 1024 (Some 0x1000)))) = 1016
   \<and> unat (pool_size_m (snd (allocate 1016 8 (Impl_ctor 1024 (Some 0x1000))))) = 1024
   \<and> deallocate order 0x1000 1016 (snd (allocate 1016 8 (Impl_ctor 1024 (Some 0x1000))))
       = Inr ((Impl_ctor 1024 (Some 0x1000))
              \<lparr> free_blocks_m := [\<lparr> fb_ptr = 0x1000, fb_size = 1016 \<rparr>],
                 allocated_blocks_m := [],
                 allocated_size_m := 0,
                 stats_m := MemoryStats_init\<lparr> current_usage := 0, peak_usage := 1016,
                                                 allocation_count := 1,
                                                 deallocation_count := 1 \<rparr> \<rparr>)"
proof -
  have a: "allocate 1016 8 (Impl_ctor 1024 (Some 0x1000))
       = (0x1000, (Impl_ctor 1024 (Some 0x1000))
            \<lparr> free_blocks_m := [],
               allocated_blocks_m := [(0x1000, 1016)],
               allocated_size_m := 1016,
               stats_m := MemoryStats_init\<lparr> current_usage := 1016, peak_usage := 1016,
                                               allocation_count := 1 \<rparr> \<rparr>)"
    by (simp add: allocate_def Impl_ctor_def initialize_pool_def aligned_size_of_def
                  Let_def MemoryStats_init_def)
  have b: "free_bytes (snd (allocate 1016 8 (Impl_ctor 1024 (Some 0x1000))))
       + allocated_bytes (snd (allocate 1016 8 (Impl_ctor 1024 (Some 0x1000)))) = 1016"
    by (simp add: a free_bytes_def allocated_bytes_def)
  have c: "unat (pool_size_m (snd (allocate 1016 8 (Impl_ctor 1024 (Some 0x1000))))) = 1024"
    by (simp add: allocate_keeps_pool) (simp add: Impl_ctor_def initialize_pool_def)
  have l: "merge_loop 0 [\<lparr> fb_ptr = 0x1000, fb_size = 1016 \<rparr>]
             = Inr [\<lparr> fb_ptr = 0x1000, fb_size = 1016 \<rparr>]"
    by (simp add: merge_loop.simps [of 0 "[\<lparr> fb_ptr = 0x1000, fb_size = 1016 \<rparr>]"])
  have d: "deallocate order 0x1000 1016 (snd (allocate 1016 8 (Impl_ctor 1024 (Some 0x1000))))
       = Inr ((Impl_ctor 1024 (Some 0x1000))
              \<lparr> free_blocks_m := [\<lparr> fb_ptr = 0x1000, fb_size = 1016 \<rparr>],
                 allocated_blocks_m := [],
                 allocated_size_m := 0,
                 stats_m := MemoryStats_init\<lparr> current_usage := 0, peak_usage := 1016,
                                                 allocation_count := 1,
                                                 deallocation_count := 1 \<rparr> \<rparr>)"
    unfolding a snd_conv
    by (simp add: deallocate_def merge_free_blocks_def std_sort_single l
                  Impl_ctor_def initialize_pool_def MemoryStats_init_def Let_def)
  from a b c d show ?thesis by blast
qed

text \<open>
  Claim C2 does not hold of the code: \<^verbatim>\<open>allocate\<close> rounds the size up and returns the
  start of the chosen block as it is. On a pool mapped at \<open>0x1000\<close>, after
  \<^verbatim>\<open>allocate(1, 1)\<close> the call \<^verbatim>\<open>allocate(8, 8)\<close> returns \<open>0x1001\<close>, which is not a
  multiple of 8.
\<close>

theorem C2_pointer_not_aligned:
  "fst (allocate 1 1 (Impl_ctor 1024 (Some 0x1000))) = 0x1000
   \<and> fst (allocate 8 8 (snd (allocate 1 1 (Impl_ctor 1024 (Some 0x1000))))) = 0x1001
   \<and> \<not> is_aligned (fst (allocate 8 8 (snd (allocate 1 1 (Impl_ctor 1024 (Some 0x1000)))))) 8"
  by (simp add: mmap_returns_def allocate_def Impl_ctor_def initialize_pool_def aligned_size_of_def
                Let_def MemoryStats_init_def is_aligned_def)

lemma and_not_eq_diff: "x AND NOT m = x - (x AND m)" for x m :: size_t
proof -
  have "NOT x AND (x AND m) = 0" by (simp add: bit_eq_iff bit_simps)
  then have "x - (x AND m) = x AND NOT (x AND m)" by (rule disjunctive_diff_eq_and_not)
  also have "\<dots> = x AND NOT m" by (auto simp: bit_eq_iff bit_simps)
  finally show ?thesis by simp
qed

lemma aligned_size_of_ge:
  assumes "alignment \<noteq> 0" and "unat sz + (unat alignment - 1) < 2 ^ 64"
  shows "sz \<le> aligned_size_of sz alignment"
proof -
  let ?m = "alignment - 1"
  from assms(1) have "1 \<le> alignment" by (simp add: word_le_nat_alt unat_eq_0 Suc_le_eq unat_gt_0)
  then have um: "unat ?m = unat alignment - 1" by (simp add: unat_sub)
  have eq: "sz + alignment - 1 = sz + ?m" by simp
  from assms(2) um have ux: "unat (sz + ?m) = unat sz + unat ?m"
    by (simp add: unat_add_lem [THEN iffD1])
  have "(sz + ?m) AND ?m \<le> ?m" by (rule word_and_le1)
  then have le: "unat ((sz + ?m) AND ?m) \<le> unat ?m" by (simp add: word_le_nat_alt)
  have "(sz + ?m) AND ?m \<le> sz + ?m" by (rule word_and_le2)
  then have "unat (sz + ?m - ((sz + ?m) AND ?m)) = unat (sz + ?m) - unat ((sz + ?m) AND ?m)"
    by (rule unat_sub)
  with ux le have "unat sz \<le> unat (sz + ?m - ((sz + ?m) AND ?m))" by simp
  then have "sz \<le> (sz + ?m) AND NOT ?m" by (simp add: and_not_eq_diff word_le_nat_alt)
  then show ?thesis by (simp add: aligned_size_of_def eq)
qed

lemma aligned_size_of_wraps: "aligned_size_of (- 1) 8 = 0"
  by (simp add: aligned_size_of_def)

lemma allocate_returns_block:
  assumes "fst (allocate sz alignment a) \<noteq> 0"
  shows "\<exists>b \<in> set (free_blocks_m a).
           fb_ptr b = fst (allocate sz alignment a) \<and> aligned_size_of sz alignment \<le> fb_size b"
proof (cases "first_fit (aligned_size_of sz alignment) (free_blocks_m a)")
  case None
  with assms show ?thesis by (simp add: allocate_def)
next
  case (Some br)
  obtain b r where br: "br = (b, r)" by (cases br)
  from Some br first_fit_Some [of "aligned_size_of sz alignment" "free_blocks_m a" b r]
  have "b \<in> set (free_blocks_m a)" "aligned_size_of sz alignment \<le> fb_size b" by simp_all
  moreover have "fst (allocate sz alignment a) = fb_ptr b"
    using Some br by (simp add: allocate_def Let_def)
  ultimately show ?thesis by auto
qed

text \<open>
  What does hold of \<^verbatim>\<open>allocate\<close>. It has no throwing branch (it is a total function
  into pointer and state). In every reachable state it returns \<^verbatim>\<open>nullptr\<close> exactly
  when no free block is as large as the rounded request \<open>aligned_size_of\<close>, and
  then the state is unchanged; when the rounding does not wrap around, a non-null
  result is the start of a free block of at least \<open>size\<close> bytes. The arena never
  grows, and on a pool of 1024 bytes \<^verbatim>\<open>allocate(1024)\<close> returns the base and a
  following \<^verbatim>\<open>allocate(1)\<close> returns \<^verbatim>\<open>nullptr\<close>.
\<close>

lemma allocate_nullptr_iff_rounded_request_fits:
  assumes "reachable a"
  shows "(fst (allocate sz alignment a) = 0
            \<longleftrightarrow> (\<forall>b \<in> set (free_blocks_m a). fb_size b < aligned_size_of sz alignment))
         \<and> (fst (allocate sz alignment a) = 0 \<longrightarrow> snd (allocate sz alignment a) = a)
         \<and> (fst (allocate sz alignment a) \<noteq> 0
               \<and> alignment \<noteq> 0 \<and> unat sz + (unat alignment - 1) < 2 ^ 64
              \<longrightarrow> (\<exists>b \<in> set (free_blocks_m a).
                     fb_ptr b = fst (allocate sz alignment a) \<and> sz \<le> fb_size b))
         \<and> pool_size_m (snd (allocate sz alignment a)) = pool_size_m a
         \<and> pool_memory_m (snd (allocate sz alignment a)) = pool_memory_m a
         \<and> free_bytes (snd (allocate sz alignment a)) \<le> free_bytes a
         \<and> (\<forall>base. mmap_returns 1024 (Some base) \<longrightarrow>
               fst (allocate 1024 8 (Impl_ctor 1024 (Some base))) = base
               \<and> base \<noteq> 0
               \<and> allocate 1 8 (snd (allocate 1024 8 (Impl_ctor 1024 (Some base))))
                   = (0, snd (allocate 1024 8 (Impl_ctor 1024 (Some base)))))"
proof -
  from assms have I: "blocks_in_range a" by (rule reachable_inv)
  note iff = allocate_null_iff [OF I, of sz alignment]
  have unchanged: "fst (allocate sz alignment a) = 0 \<longrightarrow> snd (allocate sz alignment a) = a"
    using iff allocate_null_unchanged [of a sz alignment] by auto
  have holds: "fst (allocate sz alignment a) \<noteq> 0
               \<and> alignment \<noteq> 0 \<and> unat sz + (unat alignment - 1) < 2 ^ 64
              \<longrightarrow> (\<exists>b \<in> set (free_blocks_m a).
                     fb_ptr b = fst (allocate sz alignment a) \<and> sz \<le> fb_size b)"
  proof (intro impI)
    assume h: "fst (allocate sz alignment a) \<noteq> 0
               \<and> alignment \<noteq> 0 \<and> unat sz + (unat alignment - 1) < 2 ^ 64"
    then have ge: "sz \<le> aligned_size_of sz alignment" by (intro aligned_size_of_ge) simp_all
    from h allocate_returns_block [of sz alignment a] obtain b where
      "b \<in> set (free_blocks_m a)" "fb_ptr b = fst (allocate sz alignment a)"
      "aligned_size_of sz alignment \<le> fb_size b" by blast
    with ge show "\<exists>b \<in> set (free_blocks_m a).
                     fb_ptr b = fst (allocate sz alignment a) \<and> sz \<le> fb_size b"
      by (auto intro: order_trans)
  qed
  have scen: "\<forall>base. mmap_returns 1024 (Some base) \<longrightarrow>
               fst (allocate 1024 8 (Impl_ctor 1024 (Some base))) = base
               \<and> base \<noteq> 0
               \<and> allocate 1 8 (snd (allocate 1024 8 (Impl_ctor 1024 (Some base))))
                   = (0, snd (allocate 1024 8 (Impl_ctor 1024 (Some base))))"
  proof (intro allI impI)
    fix base assume m: "mmap_returns 1024 (Some base)"
    note s = exhaustion_scenario [OF m]
    have "free_blocks_m (snd (allocate 1024 8 (Impl_ctor 1024 (Some base)))) = []"
      by (simp add: s)
    then have "allocate 1 8 (snd (allocate 1024 8 (Impl_ctor 1024 (Some base))))
                 = (0, snd (allocate 1024 8 (Impl_ctor 1024 (Some base))))"
      by (intro allocate_null_unchanged) simp
    moreover from m have "base \<noteq> 0" by (simp add: mmap_returns_def)
    ultimately show "fst (allocate 1024 8 (Impl_ctor 1024 (Some base))) = base
               \<and> base \<noteq> 0
               \<and> allocate 1 8 (snd (allocate 1024 8 (Impl_ctor 1024 (Some base))))
                   = (0, snd (allocate 1024 8 (Impl_ctor 1024 (Some base))))"
      by (simp add: s)
  qed
  from iff unchanged holds allocate_keeps_pool [of sz alignment a]
       free_bytes_allocate [of sz alignment a] scen
  show ?thesis by blast
qed

text \<open>
  Claim C3 does not hold of the code. The rounded request
  \<^verbatim>\<open>(size + alignment - 1) & ~(alignment - 1)\<close> is computed in \<^verbatim>\<open>size_t\<close> and wraps
  around for a size within \<open>alignment\<close> of \<open>2 ^ 64\<close>. On a fresh pool of 1024 bytes
  mapped at \<open>0x1000\<close>, the only free block has 1024 bytes and cannot hold
  \<open>2 ^ 64 - 1\<close> bytes, yet \<^verbatim>\<open>allocate(SIZE_MAX, 8)\<close> rounds the request to 0, takes
  that block and returns the non-null pointer \<open>0x1000\<close>, recording an allocation
  of 0 bytes and leaving the whole pool on the free list.
\<close>

theorem C3_huge_request_returns_non_null:
  "free_blocks_m (Impl_ctor 1024 (Some 0x1000)) = [\<lparr> fb_ptr = 0x1000, fb_size = 1024 \<rparr>]
   \<and> unat (0xFFFFFFFFFFFFFFFF :: size_t) = 2 ^ 64 - 1
   \<and> (1024 :: size_t) < 0xFFFFFFFFFFFFFFFF
   \<and> aligned_size_of 0xFFFFFFFFFFFFFFFF 8 = 0
   \<and> allocate 0xFFFFFFFFFFFFFFFF 8 (Impl_ctor 1024 (Some 0x1000))
       = (0x1000, (Impl_ctor 1024 (Some 0x1000))
            \<lparr> allocated_blocks_m := [(0x1000, 0)],
               stats_m := MemoryStats_init\<lparr> allocation_count := 1 \<rparr> \<rparr>)
   \<and> fst (allocate 0xFFFFFFFFFFFFFFFF 8 (Impl_ctor 1024 (Some 0x1000))) \<noteq> 0"
proof -
  have f: "free_blocks_m (Impl_ctor 1024 (Some 0x1000)) = [\<lparr> fb_ptr = 0x1000, fb_size = 1024 \<rparr>]"
    by (simp add: Impl_ctor_def initialize_pool_def)
  have u: "unat (0xFFFFFFFFFFFFFFFF :: size_t) = 2 ^ 64 - 1" by simp
  have lt: "(1024 :: size_t) < 0xFFFFFFFFFFFFFFFF" by (simp add: word_less_nat_alt)
  have r: "aligned_size_of 0xFFFFFFFFFFFFFFFF 8 = 0" by (simp add: aligned_size_of_def)
  have a: "allocate 0xFFFFFFFFFFFFFFFF 8 (Impl_ctor 1024 (Some 0x1000))
       = (0x1000, (Impl_ctor 1024 (Some 0x1000))
            \<lparr> allocated_blocks_m := [(0x1000, 0)],
               stats_m := MemoryStats_init\<lparr> allocation_count := 1 \<rparr> \<rparr>)"
    by (simp add: allocate_def r f Let_def) (simp add: Impl_ctor_def initialize_pool_def MemoryStats_init_def)
  have n: "fst (allocate 0xFFFFFFFFFFFFFFFF 8 (Impl_ctor 1024 (Some 0x1000))) \<noteq> 0"
    by (simp add: a)
  from f u lt r a n show ?thesis by blast
qed

text \<open>
  Claim C9. For every allocator state, \<^verbatim>\<open>deallocate(ptr, size)\<close> with a null \<open>ptr\<close>, or
  with a \<open>ptr\<close> that is not a key of the allocated-block map, returns and leaves
  the whole state as it was: free list, allocated-block map, allocated byte total
  and every statistics counter (the sort is not reached, so \<open>order\<close> is any).
\<close>

theorem C9_deallocate_unknown_is_noop:
  "ptr = 0 \<or> ptr \<notin> fst ` set (allocated_blocks_m a) \<Longrightarrow>
     deallocate order ptr sz a = Inr a"
proof -
  assume "ptr = 0 \<or> ptr \<notin> fst ` set (allocated_blocks_m a)"
  then have "ptr = 0 \<or> map_of (allocated_blocks_m a) ptr = None"
    by (simp add: map_of_eq_None_iff)
  then show ?thesis by (rule deallocate_unknown)
qed

theorem C9_witness:
  "deallocate [] 0 16 (snd (allocate 16 8 (Impl_ctor 1024 (Some 0x1000))))
     = Inr (snd (allocate 16 8 (Impl_ctor 1024 (Some 0x1000))))
   \<and> 0x2000 \<notin> fst ` set (allocated_blocks_m (snd (allocate 16 8 (Impl_ctor 1024 (Some 0x1000)))))
   \<and> allocated_blocks_m (snd (allocate 16 8 (Impl_ctor 1024 (Some 0x1000)))) = [(0x1000, 16)]
   \<and> deallocate [] 0x2000 16 (snd (allocate 16 8 (Impl_ctor 1024 (Some 0x1000))))
     = Inr (snd (allocate 16 8 (Impl_ctor 1024 (Some 0x1000))))"
proof -
  let ?a = "snd (allocate 16 8 (Impl_ctor 1024 (Some 0x1000)))"
  have al: "allocated_blocks_m ?a = [(0x1000, 16)]"
    by (simp add: allocate_def Impl_ctor_def initialize_pool_def aligned_size_of_def Let_def)
  then have notin: "0x2000 \<notin> fst ` set (allocated_blocks_m ?a)" by simp
  from C9_deallocate_unknown_is_noop [where ptr = 0 and a = ?a and sz = 16 and order = "[]"]
       C9_deallocate_unknown_is_noop [where ptr = "0x2000" and a = ?a and sz = 16 and order = "[]"]
       al notin
  show ?thesis by simp
qed

text \<open>
  Claim C10 does not hold of the code. After \<^verbatim>\<open>allocate(1024, 8)\<close> on a pool of 1024
  bytes the free list is empty; in \<^verbatim>\<open>compact()\<close> the loop bound
  \<^verbatim>\<open>free_blocks_.size() - 1\<close> wraps around to the largest \<^verbatim>\<open>size_t\<close>, the loop is
  entered and reads \<^verbatim>\<open>free_blocks_[0]\<close> of an empty vector.
\<close>

theorem C10_compact_reads_out_of_bounds:
  "free_blocks_m (snd (allocate 1024 8 (Impl_ctor 1024 (Some 0x1000)))) = []
   \<and> compact order (snd (allocate 1024 8 (Impl_ctor 1024 (Some 0x1000)))) = Inl OutOfBounds"
proof -
  have m: "mmap_returns 1024 (Some 0x1000)" by (simp add: mmap_returns_def)
  have e: "free_blocks_m (snd (allocate 1024 8 (Impl_ctor 1024 (Some 0x1000)))) = []"
    by (simp add: exhaustion_scenario [OF m])
  have "merge_free_blocks order [] = Inl OutOfBounds"
    by (simp add: merge_free_blocks_def std_sort_Nil merge_loop.simps [of 0 "[]"] word_zero_less_max)
  with e have "compact order (snd (allocate 1024 8 (Impl_ctor 1024 (Some 0x1000)))) = Inl OutOfBounds"
    by (simp add: compact_def)
  with e show ?thesis by simp
qed

section \<open>Properties of ObjectPool\<close>

lemma acquire_keeps_bound:
  "available p \<le> capacity p \<Longrightarrow> available (snd (acquire mk p)) \<le> capacity (snd (acquire mk p))"
  by (auto simp: acquire_def available_def capacity_def)

lemma release_keeps_bound:
  "available p \<le> capacity p \<Longrightarrow>
     available (snd (release rs obj p)) \<le> capacity (snd (release rs obj p))"
  by (cases obj) (simp_all add: release_def available_def capacity_def)

lemma release_when_full:
  "capacity p \<le> available p \<Longrightarrow> release rs (Some ob) p = (Some ob, p)"
  by (simp add: release_def available_def capacity_def)

lemma ObjectPool_ctor_bound:
  "initial_size \<le> max_size \<Longrightarrow>
     available (ObjectPool_ctor mk initial_size max_size)
       \<le> capacity (ObjectPool_ctor mk initial_size max_size)"
  by (simp add: ObjectPool_ctor_def available_def capacity_def)

text \<open>
  Claim C4 does not hold of the code. \<^verbatim>\<open>acquire\<close> and \<^verbatim>\<open>release\<close> keep
  \<open>available \<le> capacity\<close>, and a release into a full pool destroys the object
  (the three lemmas above), but the constructor fills the pool with
  \<open>initial_size\<close> objects without looking at \<open>max_size\<close>:
  \<^verbatim>\<open>ObjectPool<T>(10, 5)\<close> holds 10 resident objects with capacity 5.
\<close>

theorem C4_constructor_exceeds_max_size:
  "available (ObjectPool_ctor mk 10 5) = 10
   \<and> capacity (ObjectPool_ctor mk 10 5) = 5
   \<and> \<not> available (ObjectPool_ctor mk 10 5) \<le> capacity (ObjectPool_ctor mk 10 5)"
  by (simp add: ObjectPool_ctor_def available_def capacity_def)

section \<open>Properties of the priority queue and of submission\<close>

lemma mset_swap_at:
  "i < length xs \<Longrightarrow> j < length xs \<Longrightarrow> mset (swap_at i j xs) = mset xs"
  unfolding swap_at_def by (simp add: mset_swap)

lemma length_swap_at [simp]: "length (swap_at i j xs) = length xs"
  by (simp add: swap_at_def)

lemma nth_swap_at:
  "i < length xs \<Longrightarrow> j < length xs \<Longrightarrow> k < length xs \<Longrightarrow>
     swap_at i j xs ! k = (if k = j then xs ! i else if k = i then xs ! j else xs ! k)"
  by (simp add: swap_at_def nth_list_update)

lemma sift_up_length [simp]: "length (sift_up xs i) = length xs"
proof (induction xs i rule: sift_up.induct)
  case (1 xs i)
  then show ?case by (simp add: sift_up.simps [of xs i] Let_def)
qed

lemma sift_up_mset: "mset (sift_up xs i) = mset xs"
proof (induction xs i rule: sift_up.induct)
  case (1 xs i)
  show ?case
  proof (cases "i = 0 \<or> length xs \<le> i")
    case True
    then show ?thesis by (simp add: sift_up.simps [of xs i])
  next
    case False
    then have "(i - 1) div 2 < length xs" "i < length xs" by auto
    then have "mset (swap_at ((i - 1) div 2) i xs) = mset xs" by (rule mset_swap_at)
    with False "1.IH" show ?thesis by (simp add: sift_up.simps [of xs i] Let_def)
  qed
qed

lemma sift_down_length [simp]: "length (sift_down xs i) = length xs"
proof (induction xs i rule: sift_down.induct)
  case (1 xs i)
  then show ?case by (simp add: sift_down.simps [of xs i] Let_def)
qed

lemma sift_down_mset: "i < length xs \<Longrightarrow> mset (sift_down xs i) = mset xs"
proof (induction xs i rule: sift_down.induct)
  case (1 xs i)
  define l where "l = 2 * i + 1"
  define r where "r = 2 * i + 2"
  define m0 where "m0 = (if l < length xs \<and> PriorityTask_less (xs ! i) (xs ! l) then l else i)"
  define m where "m = (if r < length xs \<and> PriorityTask_less (xs ! m0) (xs ! r) then r else m0)"
  have step: "sift_down xs i = (if m = i then xs else sift_down (swap_at i m xs) m)"
    by (simp add: sift_down.simps [of xs i] Let_def l_def r_def m0_def m_def)
  show ?case
  proof (cases "m = i")
    case True
    with step show ?thesis by simp
  next
    case False
    have ml: "m < length xs" using "1.prems" by (auto simp: m_def m0_def)
    have "mset (sift_down (swap_at i m xs) m) = mset (swap_at i m xs)"
      using "1.IH" [OF l_def r_def m0_def m_def False] ml by simp
    with step False ml "1.prems" show ?thesis by (simp add: mset_swap_at)
  qed
qed

lemma less_iff_prio: "PriorityTask_less a b \<longleftrightarrow> prio_of a < prio_of b"
  by (simp add: PriorityTask_less_def prio_of_def)

lemma heap_inv_iff:
  "heap_inv xs \<longleftrightarrow> (\<forall>i. 0 < i \<and> i < length xs \<longrightarrow> prio_of (xs ! i) \<le> prio_of (xs ! ((i - 1) div 2)))"
  by (simp add: heap_inv_def less_iff_prio not_less)

lemma parent_less: "0 < i \<Longrightarrow> (i - 1) div 2 < (i :: nat)"
  by arith

lemma sift_up_heap: "k < length xs \<Longrightarrow> up_inv xs k \<Longrightarrow> heap_inv (sift_up xs k)"
proof (induction xs k rule: sift_up.induct)
  case (1 xs k)
  let ?p = "(k - 1) div 2"
  show ?case
  proof (cases "k = 0")
    case True
    with "1.prems" show ?thesis
      by (simp add: sift_up.simps [of xs 0] heap_inv_iff up_inv_def)
  next
    case kpos: False
    then have pk: "?p < k" by arith
    with "1.prems" have pl: "?p < length xs" by simp
    show ?thesis
    proof (cases "PriorityTask_less (xs ! ?p) (xs ! k)")
      case False
      then have "prio_of (xs ! k) \<le> prio_of (xs ! ?p)" by (simp add: less_iff_prio)
      with "1.prems" have "heap_inv xs"
        unfolding heap_inv_iff up_inv_def by metis
      with False kpos "1.prems" show ?thesis by (simp add: sift_up.simps [of xs k] Let_def)
    next
      case True
      then have lt: "prio_of (xs ! ?p) < prio_of (xs ! k)" by (simp add: less_iff_prio)
      let ?ys = "swap_at ?p k xs"
      have nth: "\<And>j. j < length xs \<Longrightarrow>
                  ?ys ! j = (if j = k then xs ! ?p else if j = ?p then xs ! k else xs ! j)"
        using pl "1.prems"(1) by (simp add: nth_swap_at)
      from "1.prems"(2) have
        edge: "\<And>i. 0 < i \<Longrightarrow> i < length xs \<Longrightarrow> i \<noteq> k \<Longrightarrow> prio_of (xs ! i) \<le> prio_of (xs ! ((i - 1) div 2))"
        and grand: "\<And>c. 0 < c \<Longrightarrow> c < length xs \<Longrightarrow> (c - 1) div 2 = k \<Longrightarrow> prio_of (xs ! c) \<le> prio_of (xs ! ?p)"
        using kpos by (auto simp: up_inv_def)
      have "up_inv ?ys ?p"
        unfolding up_inv_def
      proof (intro conjI allI impI)
        fix i assume a: "0 < i \<and> i < length ?ys \<and> i \<noteq> ?p"
        then have i: "0 < i" "i < length xs" "i \<noteq> ?p" by simp_all
        let ?q = "(i - 1) div 2"
        have qi: "?q < i" using i by arith
        then have ql: "?q < length xs" using i by simp
        show "prio_of (?ys ! i) \<le> prio_of (?ys ! ?q)"
        proof (cases "i = k")
          case True
          then show ?thesis using nth [OF i(2)] nth [OF pl] lt pk by simp
        next
          case ik: False
          note e = edge [OF i(1) i(2) ik]
          show ?thesis
          proof (cases "?q = k")
            case True
            with grand [OF i(1) i(2)] ik i(3) nth [OF i(2)] nth [OF ql] pk show ?thesis by simp
          next
            case qk: False
            show ?thesis
            proof (cases "?q = ?p")
              case True
              with e lt ik i(3) nth [OF i(2)] nth [OF ql] qk show ?thesis by simp
            next
              case False
              with e ik i(3) nth [OF i(2)] nth [OF ql] qk show ?thesis by simp
            qed
          qed
        qed
      next
        fix c assume a: "0 < c \<and> c < length ?ys \<and> (c - 1) div 2 = ?p \<and> 0 < ?p"
        then have c: "0 < c" "c < length xs" "(c - 1) div 2 = ?p" "0 < ?p" by simp_all
        let ?g = "(?p - 1) div 2"
        have gp: "?g < ?p" using c(4) by arith
        then have gl: "?g < length xs" using pl by simp
        have cp: "c \<noteq> ?p" using c(1,3) parent_less [of c] by simp
        have pe: "prio_of (xs ! ?p) \<le> prio_of (xs ! ?g)"
          using edge [OF c(4) pl] pk by simp
        have yg: "?ys ! ?g = xs ! ?g" using nth [OF gl] gp pk by simp
        show "prio_of (?ys ! c) \<le> prio_of (?ys ! ?g)"
        proof (cases "c = k")
          case True
          then show ?thesis using nth [OF c(2)] yg pe by simp
        next
          case False
          from edge [OF c(1) c(2) False] c(3) pe
          have "prio_of (xs ! c) \<le> prio_of (xs ! ?g)" by simp
          then show ?thesis using nth [OF c(2)] False cp yg by simp
        qed
      qed
      moreover have "?p < length ?ys" using pl by simp
      ultimately have "heap_inv (sift_up ?ys ?p)"
        using "1.IH" [OF _ refl True] kpos "1.prems"(1) by simp
      with True kpos "1.prems"(1) show ?thesis by (simp add: sift_up.simps [of xs k] Let_def)
    qed
  qed
qed

lemma child_iff: "0 < c \<Longrightarrow> ((c - 1) div 2 = k \<longleftrightarrow> c = 2 * k + 1 \<or> c = 2 * k + 2)" for c k :: nat
  by arith

lemma sift_down_heap: "k < length xs \<Longrightarrow> down_inv xs k \<Longrightarrow> heap_inv (sift_down xs k)"
proof (induction xs k rule: sift_down.induct)
  case (1 xs k)
  define l where "l = 2 * k + 1"
  define r where "r = 2 * k + 2"
  define m0 where "m0 = (if l < length xs \<and> PriorityTask_less (xs ! k) (xs ! l) then l else k)"
  define m where "m = (if r < length xs \<and> PriorityTask_less (xs ! m0) (xs ! r) then r else m0)"
  have step: "sift_down xs k = (if m = k then xs else sift_down (swap_at k m xs) m)"
    by (simp add: sift_down.simps [of xs k] Let_def l_def r_def m0_def m_def)
  from "1.prems"(2) have
    edge: "\<And>i. 0 < i \<Longrightarrow> i < length xs \<Longrightarrow> (i - 1) div 2 \<noteq> k
              \<Longrightarrow> prio_of (xs ! i) \<le> prio_of (xs ! ((i - 1) div 2))"
    and grand: "\<And>c. 0 < c \<Longrightarrow> c < length xs \<Longrightarrow> (c - 1) div 2 = k \<Longrightarrow> 0 < k
              \<Longrightarrow> prio_of (xs ! c) \<le> prio_of (xs ! ((k - 1) div 2))"
    by (auto simp: down_inv_def)
  have child: "\<And>c. 0 < c \<Longrightarrow> ((c - 1) div 2 = k \<longleftrightarrow> c = l \<or> c = r)"
    unfolding l_def r_def by (rule child_iff)
  have big: "\<And>c. c < length xs \<Longrightarrow> c = l \<or> c = r \<Longrightarrow> prio_of (xs ! c) \<le> prio_of (xs ! m)"
    unfolding m_def m0_def by (auto simp: less_iff_prio)
  show ?case
  proof (cases "m = k")
    case True
    have "heap_inv xs"
      unfolding heap_inv_iff
    proof (intro allI impI)
      fix i assume a: "0 < i \<and> i < length xs"
      show "prio_of (xs ! i) \<le> prio_of (xs ! ((i - 1) div 2))"
      proof (cases "(i - 1) div 2 = k")
        case False
        with a edge show ?thesis by simp
      next
        case pk: True
        with a child have "i = l \<or> i = r" by simp
        with big [of i] a True pk show ?thesis by simp
      qed
    qed
    with step True show ?thesis by simp
  next
    case False
    have mc: "m = l \<or> m = r" using False by (auto simp: m_def m0_def split: if_splits)
    have ml: "m < length xs" using False by (auto simp: m_def m0_def split: if_splits)
    have gt: "prio_of (xs ! k) < prio_of (xs ! m)"
      using False unfolding m_def m0_def by (auto simp: less_iff_prio split: if_splits)
    have km: "k < m" using mc by (auto simp: l_def r_def)
    have mpos: "0 < m" using km by simp
    have pm: "(m - 1) div 2 = k" using child [OF mpos] mc by simp
    let ?ys = "swap_at k m xs"
    have nth: "\<And>j. j < length xs \<Longrightarrow>
                ?ys ! j = (if j = m then xs ! k else if j = k then xs ! m else xs ! j)"
      using ml "1.prems"(1) by (simp add: nth_swap_at)
    have "down_inv ?ys m"
      unfolding down_inv_def
    proof (intro conjI allI impI)
      fix i assume a: "0 < i \<and> i < length ?ys \<and> (i - 1) div 2 \<noteq> m"
      then have i: "0 < i" "i < length xs" "(i - 1) div 2 \<noteq> m" by simp_all
      let ?q = "(i - 1) div 2"
      have qi: "?q < i" using i(1) by arith
      then have ql: "?q < length xs" using i(2) by simp
      show "prio_of (?ys ! i) \<le> prio_of (?ys ! ?q)"
      proof (cases "i = m")
        case True
        then show ?thesis using nth [OF ml] nth [OF "1.prems"(1)] pm gt km by simp
      next
        case im: False
        show ?thesis
        proof (cases "i = k")
          case True
          then have kpos: "0 < k" using i(1) by simp
          have qk: "?q < k" using True qi by simp
          from grand [OF mpos ml pm kpos] True
          have "prio_of (xs ! m) \<le> prio_of (xs ! ?q)" by simp
          then show ?thesis using nth [OF i(2)] nth [OF ql] True km qk by simp
        next
          case ik: False
          show ?thesis
          proof (cases "?q = k")
            case True
            with child [OF i(1)] have "i = l \<or> i = r" by simp
            from big [OF i(2) this] show ?thesis
              using nth [OF i(2)] nth [OF ql] im ik True km by simp
          next
            case False
            from edge [OF i(1) i(2) False] show ?thesis
              using nth [OF i(2)] nth [OF ql] im ik i(3) False by simp
          qed
        qed
      qed
    next
      fix c assume a: "0 < c \<and> c < length ?ys \<and> (c - 1) div 2 = m \<and> 0 < m"
      then have c: "0 < c" "c < length xs" "(c - 1) div 2 = m" by simp_all
      have mc': "m < c" using parent_less [OF c(1)] c(3) by simp
      have "(c - 1) div 2 \<noteq> k" using c(3) km by simp
      from edge [OF c(1) c(2) this] c(3) have "prio_of (xs ! c) \<le> prio_of (xs ! m)" by simp
      then show "prio_of (?ys ! c) \<le> prio_of (?ys ! ((m - 1) div 2))"
        using nth [OF c(2)] nth [OF "1.prems"(1)] pm mc' km by simp
    qed
    moreover have "m < length ?ys" using ml by simp
    ultimately have "heap_inv (sift_down ?ys m)"
      using "1.IH" [OF l_def r_def m0_def m_def False] by simp
    with step False show ?thesis by simp
  qed
qed

lemma heap_inv_Nil: "heap_inv []"
  by (simp add: heap_inv_def)

lemma heap_inv_emplace: "heap_inv xs \<Longrightarrow> heap_inv (pq_emplace x xs)"
proof -
  assume h: "heap_inv xs"
  have "up_inv (xs @ [x]) (length xs)"
    unfolding up_inv_def
  proof (intro conjI allI impI)
    fix i assume a: "0 < i \<and> i < length (xs @ [x]) \<and> i \<noteq> length xs"
    then have i: "0 < i" "i < length xs" by simp_all
    then have "(i - 1) div 2 < length xs" by arith
    with h i show "prio_of ((xs @ [x]) ! i) \<le> prio_of ((xs @ [x]) ! ((i - 1) div 2))"
      by (simp add: heap_inv_iff nth_append)
  next
    fix c assume a: "0 < c \<and> c < length (xs @ [x]) \<and> (c - 1) div 2 = length xs \<and> 0 < length xs"
    then have False using parent_less [of c] by simp
    then show "prio_of ((xs @ [x]) ! c) \<le> prio_of ((xs @ [x]) ! ((length xs - 1) div 2))" ..
  qed
  then show ?thesis unfolding pq_emplace_def by (intro sift_up_heap) simp_all
qed

lemma mset_emplace: "mset (pq_emplace x xs) = add_mset x (mset xs)"
  by (simp add: pq_emplace_def sift_up_mset)

lemma pop_body:
  "xs \<noteq> [] \<Longrightarrow> butlast (swap_at 0 (length xs - 1) xs) = (butlast xs)[0 := last xs]"
proof (cases xs rule: rev_cases)
  case Nil
  assume "xs \<noteq> []" with Nil show ?thesis by simp
next
  case (snoc ys y)
  show ?thesis
  proof (cases ys)
    case Nil
    with snoc show ?thesis by (simp add: swap_at_def)
  next
    case (Cons z zs)
    with snoc show ?thesis by (simp add: swap_at_def nth_append list_update_append)
  qed
qed

lemma heap_inv_pop: "heap_inv xs \<Longrightarrow> pq_pop xs = Some ys \<Longrightarrow> heap_inv ys"
proof -
  assume h: "heap_inv xs" and p: "pq_pop xs = Some ys"
  from p have ne: "xs \<noteq> []" by (auto simp: pq_pop_def split: if_splits)
  let ?zs = "(butlast xs)[0 := last xs]"
  from p ne pop_body [OF ne] have ys: "ys = sift_down ?zs 0" by (simp add: pq_pop_def)
  show ?thesis
  proof (cases "?zs = []")
    case True
    then have "sift_down ?zs 0 = []" by (simp add: sift_down.simps [of "[]" 0])
    with ys show ?thesis by (simp add: heap_inv_Nil)
  next
    case False
    note z0 = length_greater_0_conv [THEN iffD2, OF False]
    have "down_inv ?zs 0"
      unfolding down_inv_def
    proof (intro conjI allI impI)
      fix i assume a: "0 < i \<and> i < length ?zs \<and> (i - 1) div 2 \<noteq> 0"
      then have i: "0 < i" "i < length xs - 1" "0 < (i - 1) div 2" by simp_all
      have q: "(i - 1) div 2 < i" using i(1) by arith
      with i(2) have ql: "(i - 1) div 2 < length xs - 1" by simp
      from h i(1,2) have "prio_of (xs ! i) \<le> prio_of (xs ! ((i - 1) div 2))"
        by (simp add: heap_inv_iff)
      with i ql show "prio_of (?zs ! i) \<le> prio_of (?zs ! ((i - 1) div 2))"
        by (simp add: nth_butlast)
    next
      fix c assume "0 < c \<and> c < length ?zs \<and> (c - 1) div 2 = 0 \<and> (0::nat) < 0"
      then show "prio_of (?zs ! c) \<le> prio_of (?zs ! ((0 - 1) div 2))" by simp
    qed
    from sift_down_heap [OF z0 this] ys show ?thesis by simp
  qed
qed

lemma mset_pop:
  "pq_pop xs = Some ys \<Longrightarrow> pq_top xs = Some t \<Longrightarrow> mset xs = add_mset t (mset ys)"
proof -
  assume p: "pq_pop xs = Some ys" and t: "pq_top xs = Some t"
  from t obtain rest where xs: "xs = t # rest" by (auto simp: pq_top_def split: list.splits)
  let ?zs = "(butlast xs)[0 := last xs]"
  from xs have ne: "xs \<noteq> []" by simp
  from p ne pop_body [OF ne] have ys: "ys = sift_down ?zs 0" by (simp add: pq_pop_def)
  show ?thesis
  proof (cases rest rule: rev_cases)
    case Nil
    with xs ys show ?thesis by (simp add: sift_down.simps [of "[]" 0])
  next
    case (snoc us u)
    with xs have zs: "?zs = u # us" by simp
    then have "mset ys = mset (u # us)" using ys by (simp add: sift_down_mset)
    with xs snoc show ?thesis by simp
  qed
qed

lemma heap_top_max:
  "heap_inv xs \<Longrightarrow> i < length xs \<Longrightarrow> prio_of (xs ! i) \<le> prio_of (xs ! 0)"
proof (induction i rule: less_induct)
  case (less i)
  show ?case
  proof (cases "i = 0")
    case True
    then show ?thesis by simp
  next
    case False
    then have q: "(i - 1) div 2 < i" by arith
    from less.prems False have "prio_of (xs ! i) \<le> prio_of (xs ! ((i - 1) div 2))"
      by (simp add: heap_inv_iff)
    also have "\<dots> \<le> prio_of (xs ! 0)"
      using less.IH [OF q less.prems(1)] q less.prems(2) by simp
    finally show ?thesis .
  qed
qed

lemma pq_top_max:
  "heap_inv xs \<Longrightarrow> pq_top xs = Some t \<Longrightarrow> u \<in> set xs \<Longrightarrow> prio_of u \<le> prio_of t"
proof -
  assume h: "heap_inv xs" and t: "pq_top xs = Some t" and u: "u \<in> set xs"
  from t have t0: "t = xs ! 0" by (auto simp: pq_top_def split: list.splits)
  from u obtain i where "i < length xs" "u = xs ! i" by (auto simp: in_set_conv_nth)
  with heap_top_max [OF h, of i] t0 show ?thesis by simp
qed

lemma pool_reachable_heap: "pool_reachable p \<Longrightarrow> heap_inv (priority_tasks_m p)"
proof (induction rule: pool_reachable.induct)
  case p_init
  then show ?case by (simp add: WorkStealingPool_init_def heap_inv_Nil)
next
  case (p_submit p f fu p')
  then show ?case by (auto simp: submit_task_def split: if_splits)
next
  case (p_submit_priority p prio f fu p')
  then show ?case by (auto simp: submit_priority_task_def heap_inv_emplace split: if_splits)
next
  case (p_dequeue p t p')
  then show ?case
    by (auto simp: dequeue_priority_task_def split: option.splits dest: heap_inv_pop)
next
  case (p_shutdown p)
  then show ?case by (simp add: shutdown_flag_def)
qed

text \<open>
  Claim C6. \<^verbatim>\<open>submit_task\<close> and \<^verbatim>\<open>submit_priority_task\<close> throw if and only if
  \<^verbatim>\<open>shutdown_\<close> is set when the queue lock is held; otherwise they return the future
  of the task and a pool whose plain queue has the task appended, respectively
  whose priority queue holds the old tasks and the new one.
\<close>

theorem C6_submit_throws_iff_shutdown:
  "((\<exists>e. submit_task f p = Inl e) \<longleftrightarrow> shutdown_m p)
   \<and> ((\<exists>e. submit_priority_task prio f p = Inl e) \<longleftrightarrow> shutdown_m p)
   \<and> (\<not> shutdown_m p \<longrightarrow>
         submit_task f p = Inr (Future f, p\<lparr> tasks_m := tasks_m p @ [f] \<rparr>)
         \<and> submit_priority_task prio f p
             = Inr (Future f,
                    p\<lparr> priority_tasks_m :=
                         pq_emplace \<lparr> priority = prio, task = f \<rparr> (priority_tasks_m p) \<rparr>)
         \<and> mset (pq_emplace \<lparr> priority = prio, task = f \<rparr> (priority_tasks_m p))
             = add_mset \<lparr> priority = prio, task = f \<rparr> (mset (priority_tasks_m p)))"
  by (simp add: submit_task_def submit_priority_task_def mset_emplace)

theorem C6_witness:
  "\<not> shutdown_m (WorkStealingPool_init :: nat WorkStealingPool)
   \<and> submit_task (7 :: nat) WorkStealingPool_init
        = Inr (Future 7, \<lparr> tasks_m = [7], priority_tasks_m = [], shutdown_m = False \<rparr>)
   \<and> shutdown_m (shutdown_flag (WorkStealingPool_init :: nat WorkStealingPool))
   \<and> (\<exists>e. submit_task (7 :: nat) (shutdown_flag WorkStealingPool_init) = Inl e)
   \<and> (\<exists>e. submit_priority_task HIGH (7 :: nat) (shutdown_flag WorkStealingPool_init) = Inl e)"
proof -
  have a: "\<not> shutdown_m (WorkStealingPool_init :: nat WorkStealingPool)"
    by (simp add: WorkStealingPool_init_def)
  have b: "shutdown_m (shutdown_flag (WorkStealingPool_init :: nat WorkStealingPool))"
    by (simp add: shutdown_flag_def)
  from C6_submit_throws_iff_shutdown [of "7 :: nat" WorkStealingPool_init HIGH] a
  have c: "submit_task (7 :: nat) WorkStealingPool_init
        = Inr (Future 7, \<lparr> tasks_m = [7], priority_tasks_m = [], shutdown_m = False \<rparr>)"
    by (simp add: WorkStealingPool_init_def)
  from C6_submit_throws_iff_shutdown [of "7 :: nat" "shutdown_flag WorkStealingPool_init" HIGH] b
  have d: "(\<exists>e. submit_task (7 :: nat) (shutdown_flag WorkStealingPool_init) = Inl e)
           \<and> (\<exists>e. submit_priority_task HIGH (7 :: nat) (shutdown_flag WorkStealingPool_init) = Inl e)"
    by blast
  from a b c d show ?thesis by blast
qed

lemma dequeue_priority_task_Some:
  "dequeue_priority_task p = Some (t, p') \<Longrightarrow>
     \<exists>q. pq_top (priority_tasks_m p) = Some t \<and> pq_pop (priority_tasks_m p) = Some q
         \<and> p' = p\<lparr> priority_tasks_m := q \<rparr>"
  by (auto simp: dequeue_priority_task_def split: option.splits)

lemma not_fifo_example:
  "pq_top (pq_emplace \<lparr> priority = NORMAL, task = 3 :: nat \<rparr>
            (pq_emplace \<lparr> priority = NORMAL, task = 2 \<rparr>
              (pq_emplace \<lparr> priority = NORMAL, task = 1 \<rparr> [])))
     = Some \<lparr> priority = NORMAL, task = 1 \<rparr>
   \<and> pq_pop (pq_emplace \<lparr> priority = NORMAL, task = 3 :: nat \<rparr>
            (pq_emplace \<lparr> priority = NORMAL, task = 2 \<rparr>
              (pq_emplace \<lparr> priority = NORMAL, task = 1 \<rparr> [])))
     = Some [\<lparr> priority = NORMAL, task = 3 \<rparr>, \<lparr> priority = NORMAL, task = 2 \<rparr>]"
  by code_simp

text \<open>
  Claim C5. In every reachable pool the priority queue is a max-heap under
  \<^verbatim>\<open>PriorityTask::operator<\<close>, which compares the enumerator values
  (\<open>LOW < NORMAL < HIGH < CRITICAL\<close>) and nothing else. When tasks \<open>a\<close> and \<open>b\<close> are
  both queued and \<open>a\<close> has the strictly lower priority, the task dequeued next is
  not \<open>a\<close>, has at least the priority of \<open>b\<close>, and \<open>a\<close> stays queued: \<open>a\<close> cannot
  leave before \<open>b\<close>. Tasks of equal priority are not ordered by the comparison
  either way, and the heap does not keep their submission order: of three
  \<open>NORMAL\<close> tasks submitted as 1, 2, 3, task 1 is dequeued first and then task 3
  is at the front, before task 2.
\<close>

theorem C5_higher_priority_dequeued_first:
  assumes "pool_reachable p"
    and "dequeue_priority_task p = Some (t, p')"
    and "a \<in> set (priority_tasks_m p)"
    and "b \<in> set (priority_tasks_m p)"
    and "priority_value (priority a) < priority_value (priority b)"
  shows "t \<noteq> a
         \<and> priority_value (priority b) \<le> priority_value (priority t)
         \<and> a \<in> set (priority_tasks_m p')
         \<and> mset (priority_tasks_m p) = add_mset t (mset (priority_tasks_m p'))
         \<and> heap_inv (priority_tasks_m p)
         \<and> (PriorityTask_less a b \<and> \<not> PriorityTask_less b a)
         \<and> priority_value LOW < priority_value NORMAL
         \<and> priority_value NORMAL < priority_value HIGH
         \<and> priority_value HIGH < priority_value CRITICAL
         \<and> (\<forall>x y :: 'f PriorityTask. priority x = priority y
               \<longrightarrow> \<not> PriorityTask_less x y \<and> \<not> PriorityTask_less y x)
         \<and> pq_top (pq_emplace \<lparr> priority = NORMAL, task = 3 :: nat \<rparr>
                  (pq_emplace \<lparr> priority = NORMAL, task = 2 \<rparr>
                    (pq_emplace \<lparr> priority = NORMAL, task = 1 \<rparr> [])))
             = Some \<lparr> priority = NORMAL, task = 1 \<rparr>
         \<and> pq_pop (pq_emplace \<lparr> priority = NORMAL, task = 3 :: nat \<rparr>
                  (pq_emplace \<lparr> priority = NORMAL, task = 2 \<rparr>
                    (pq_emplace \<lparr> priority = NORMAL, task = 1 \<rparr> [])))
             = Some [\<lparr> priority = NORMAL, task = 3 \<rparr>, \<lparr> priority = NORMAL, task = 2 \<rparr>]"
proof -
  from dequeue_priority_task_Some [OF assms(2)] obtain q where
    top: "pq_top (priority_tasks_m p) = Some t" and pop: "pq_pop (priority_tasks_m p) = Some q"
    and p': "p' = p\<lparr> priority_tasks_m := q \<rparr>" by blast
  from assms(1) have h: "heap_inv (priority_tasks_m p)" by (rule pool_reachable_heap)
  from pq_top_max [OF h top assms(4)] have bt: "priority_value (priority b) \<le> priority_value (priority t)"
    by (simp add: prio_of_def)
  with assms(5) have ne: "t \<noteq> a" by auto
  from mset_pop [OF pop top] have m: "mset (priority_tasks_m p) = add_mset t (mset q)" .
  from assms(3) have "a \<in># mset (priority_tasks_m p)" by simp
  with m ne have "a \<in># mset q" by simp
  then have "a \<in> set q" by simp
  with ne bt m p' have main: "t \<noteq> a
         \<and> priority_value (priority b) \<le> priority_value (priority t)
         \<and> a \<in> set (priority_tasks_m p')
         \<and> mset (priority_tasks_m p) = add_mset t (mset (priority_tasks_m p'))" by simp
  have cmp: "PriorityTask_less a b \<and> \<not> PriorityTask_less b a"
    using assms(5) by (simp add: PriorityTask_less_def)
  have ties: "\<forall>x y :: 'f PriorityTask. priority x = priority y
               \<longrightarrow> \<not> PriorityTask_less x y \<and> \<not> PriorityTask_less y x"
    by (simp add: PriorityTask_less_def)
  have enum: "priority_value LOW < priority_value NORMAL
         \<and> priority_value NORMAL < priority_value HIGH
         \<and> priority_value HIGH < priority_value CRITICAL" by simp
  from main h cmp ties enum not_fifo_example show ?thesis by blast
qed

theorem C5_witness:
  "pool_reachable \<lparr> tasks_m = [],
                     priority_tasks_m = [\<lparr> priority = CRITICAL, task = 3 :: nat \<rparr>,
                                         \<lparr> priority = LOW, task = 1 \<rparr>,
                                         \<lparr> priority = NORMAL, task = 2 \<rparr>],
                     shutdown_m = False \<rparr>
   \<and> dequeue_priority_task
         \<lparr> tasks_m = [],
           priority_tasks_m = [\<lparr> priority = CRITICAL, task = 3 :: nat \<rparr>,
                               \<lparr> priority = LOW, task = 1 \<rparr>,
                               \<lparr> priority = NORMAL, task = 2 \<rparr>],
           shutdown_m = False \<rparr>
       = Some (\<lparr> priority = CRITICAL, task = 3 \<rparr>,
               \<lparr> tasks_m = [],
                 priority_tasks_m = [\<lparr> priority = NORMAL, task = 2 \<rparr>, \<lparr> priority = LOW, task = 1 \<rparr>],
                 shutdown_m = False \<rparr>)
   \<and> priority_value (priority \<lparr> priority = LOW, task = 1 :: nat \<rparr>)
       < priority_value (priority \<lparr> priority = CRITICAL, task = 3 :: nat \<rparr>)
   \<and> \<lparr> priority = CRITICAL, task = 3 :: nat \<rparr> \<noteq> \<lparr> priority = LOW, task = 1 \<rparr>
   \<and> \<lparr> priority = LOW, task = 1 :: nat \<rparr>
       \<in> set [\<lparr> priority = NORMAL, task = 2 \<rparr>, \<lparr> priority = LOW, task = 1 \<rparr>]"
proof -
  let ?l1 = "\<lparr> priority = LOW, task = 1 :: nat \<rparr>"
  let ?n2 = "\<lparr> priority = NORMAL, task = 2 :: nat \<rparr>"
  let ?c3 = "\<lparr> priority = CRITICAL, task = 3 :: nat \<rparr>"
  let ?P1 = "\<lparr> tasks_m = [], priority_tasks_m = [?l1], shutdown_m = False \<rparr>"
  let ?P2 = "\<lparr> tasks_m = [], priority_tasks_m = [?n2, ?l1], shutdown_m = False \<rparr>"
  let ?P3 = "\<lparr> tasks_m = [], priority_tasks_m = [?c3, ?l1, ?n2], shutdown_m = False \<rparr>"
  let ?P4 = "\<lparr> tasks_m = [], priority_tasks_m = [?n2, ?l1], shutdown_m = False \<rparr>"
  have s1: "submit_priority_task LOW 1 WorkStealingPool_init = Inr (Future 1, ?P1)"
    by code_simp
  have s2: "submit_priority_task NORMAL 2 ?P1 = Inr (Future 2, ?P2)"
    by code_simp
  have s3: "submit_priority_task CRITICAL 3 ?P2 = Inr (Future 3, ?P3)"
    by code_simp
  have d: "dequeue_priority_task ?P3 = Some (?c3, ?P4)"
    by code_simp
  have r: "pool_reachable ?P3"
    by (rule p_submit_priority [OF p_submit_priority [OF p_submit_priority [OF p_init s1] s2] s3])
  have "?l1 \<in> set (priority_tasks_m ?P3)" "?c3 \<in> set (priority_tasks_m ?P3)"
    "priority_value (priority ?l1) < priority_value (priority ?c3)" by simp_all
  from C5_higher_priority_dequeued_first [OF r d this] r d show ?thesis by simp
qed

end
